theory Spec2Isabelle
  imports Main "HOL-Library.Word" "HOL-Library.Option_ord"
begin

section \<open>The job data model (laniakea/db/jobs.py)\<close>

text \<open>
  \<^verbatim>\<open>class JobStatus(IntEnum)\<close>: eight members, \<^verbatim>\<open>UNKNOWN = 0\<close> and seven more numbered
  by \<^verbatim>\<open>enum.auto()\<close>.
\<close>

datatype JobStatus =
    JobStatus_UNKNOWN
  | JobStatus_WAITING
  | JobStatus_DEPWAIT
  | JobStatus_SCHEDULED
  | JobStatus_RUNNING
  | JobStatus_DONE
  | JobStatus_TERMINATED
  | JobStatus_STARVING

fun JobStatus_value :: "JobStatus \<Rightarrow> int" where
  "JobStatus_value JobStatus_UNKNOWN = 0"
| "JobStatus_value JobStatus_WAITING = 1"
| "JobStatus_value JobStatus_DEPWAIT = 2"
| "JobStatus_value JobStatus_SCHEDULED = 3"
| "JobStatus_value JobStatus_RUNNING = 4"
| "JobStatus_value JobStatus_DONE = 5"
| "JobStatus_value JobStatus_TERMINATED = 6"
| "JobStatus_value JobStatus_STARVING = 7"

text \<open>\<^verbatim>\<open>class JobResult(IntEnum)\<close>.\<close>

datatype JobResult =
    JobResult_UNKNOWN
  | JobResult_SUCCESS_PENDING
  | JobResult_SUCCESS
  | JobResult_FAILURE_DEPENDENCY
  | JobResult_FAILURE_PENDING
  | JobResult_FAILURE

fun JobResult_value :: "JobResult \<Rightarrow> int" where
  "JobResult_value JobResult_UNKNOWN = 0"
| "JobResult_value JobResult_SUCCESS_PENDING = 1"
| "JobResult_value JobResult_SUCCESS = 2"
| "JobResult_value JobResult_FAILURE_DEPENDENCY = 3"
| "JobResult_value JobResult_FAILURE_PENDING = 4"
| "JobResult_value JobResult_FAILURE = 5"

text \<open>\<^verbatim>\<open>class JobKind\<close>: the job kind identifier strings.\<close>

definition JobKind_OS_IMAGE_BUILD :: string where
  "JobKind_OS_IMAGE_BUILD = ''os-image-build''"

definition JobKind_PACKAGE_BUILD :: string where
  "JobKind_PACKAGE_BUILD = ''package-build''"

text \<open>
  A UUID is a 128-bit value; a \<^verbatim>\<open>DateTime\<close> is read as a point on an integer time line.
\<close>

type_synonym UUID = "128 word"
type_synonym datetime = int

text \<open>
  \<^verbatim>\<open>class Job(Base)\<close>. Every attribute of the mapped object may be unset (Python's
  \<^verbatim>\<open>None\<close>, SQL's NULL), so every field is an option. The column defaults
  (\<^verbatim>\<open>default=...\<close>) are not part of the constructor: the ORM applies them when the row
  is inserted, to the attributes that are still unset (see \<open>column_defaults\<close>).
\<close>

record Job =
  uuid :: "UUID option"
  status :: "JobStatus option"
  module :: "string option"
  kind :: "string option"
  trigger :: "UUID option"
  version :: "string option"
  architecture :: "string option"
  time_created :: "datetime option"
  time_assigned :: "datetime option"
  time_finished :: "datetime option"
  priority :: "int option"
  worker :: "UUID option"
  result :: "JobResult option"
  data :: "string option"
  latest_log_excerpt :: "string option"

text \<open>\<^verbatim>\<open>Job()\<close>: the constructor called with no arguments leaves every attribute unset.\<close>

definition Job_init :: Job where
  "Job_init = \<lparr> uuid = None, status = None, module = None, kind = None, trigger = None,
     version = None, architecture = None, time_created = None, time_assigned = None,
     time_finished = None, priority = None, worker = None, result = None, data = None,
     latest_log_excerpt = None \<rparr>"

text \<open>
  The column defaults of \<^verbatim>\<open>Job\<close>, applied at INSERT to the unset attributes:
  \<^verbatim>\<open>uuid\<close> (\<^verbatim>\<open>default=uuid4\<close>), \<^verbatim>\<open>status\<close> (\<^verbatim>\<open>default=JobStatus.WAITING\<close>),
  \<^verbatim>\<open>architecture\<close> (\<^verbatim>\<open>default='any'\<close>), \<^verbatim>\<open>time_created\<close> (\<^verbatim>\<open>default=datetime.utcnow\<close>)
  and \<^verbatim>\<open>result\<close> (\<^verbatim>\<open>default=JobResult.UNKNOWN\<close>). The other columns have no default.
  \<open>u\<close> and \<open>now\<close> are what \<^verbatim>\<open>uuid4()\<close> and \<^verbatim>\<open>datetime.utcnow()\<close> return for this row.
\<close>

definition or_default :: "'a option \<Rightarrow> 'a \<Rightarrow> 'a option" where
  "or_default v d = (case v of None \<Rightarrow> Some d | Some x \<Rightarrow> Some x)"

definition column_defaults :: "UUID \<Rightarrow> datetime \<Rightarrow> Job \<Rightarrow> Job" where
  "column_defaults u now j =
     j\<lparr> uuid := or_default (uuid j) u,
        status := or_default (status j) JobStatus_WAITING,
        architecture := or_default (architecture j) ''any'',
        time_created := or_default (time_created j) now,
        result := or_default (result j) JobResult_UNKNOWN \<rparr>"



definition is_failed :: "Job \<Rightarrow> bool" where
  "is_failed self \<longleftrightarrow>
     result self = Some JobResult_FAILURE
     \<or> result self = Some JobResult_FAILURE_PENDING
     \<or> result self = Some JobResult_FAILURE_DEPENDENCY"

section \<open>The database session\<close>

text \<open>
  What \<^verbatim>\<open>trigger_image_build\<close> reads of an \<^verbatim>\<open>ImageBuildRecipe\<close> (the class is declared
  in \<^verbatim>\<open>laniakea.db\<close>, not among the files modelled here): its name, its uuid and its list of
  architectures.
\<close>

record ImageBuildRecipe =
  recipe_name :: string
  recipe_uuid :: UUID
  architectures :: "string list"

text \<open>
  Modelled from the spec: \<^verbatim>\<open>LkModule.ISOTOPE\<close>, the module tag of the image builder
  (declared in \<^verbatim>\<open>laniakea.db\<close>); the spec names it "isotope".
\<close>

definition LkModule_ISOTOPE :: string where
  "LkModule_ISOTOPE = ''isotope''"

text \<open>The persistent state: the rows of the recipe table and of the \<^verbatim>\<open>jobs\<close> table.\<close>

record database =
  recipes :: "ImageBuildRecipe list"
  jobs :: "Job list"

text \<open>
  What one run of the program gets from outside: the value of the \<open>i\<close>-th call of
  \<^verbatim>\<open>uuid4()\<close> and of \<^verbatim>\<open>datetime.utcnow()\<close>, and whether the database server refuses the
  \<open>i\<close>-th INSERT for a reason of its own (connection lost, disk full).
\<close>

record env =
  uuid4 :: "nat \<Rightarrow> UUID"
  utcnow :: "nat \<Rightarrow> datetime"
  db_fault :: "nat \<Rightarrow> bool"

datatype failure =
    SystemExit int
  | MultipleResultsFound
  | IntegrityError
  | OperationalError

text \<open>
  One INSERT into \<^verbatim>\<open>jobs\<close>: the column defaults are applied, then the table's
  constraints are checked: \<^verbatim>\<open>module\<close> and \<^verbatim>\<open>kind\<close> are \<^verbatim>\<open>nullable=False\<close>, and
  \<^verbatim>\<open>uuid\<close> is the primary key.
\<close>

definition insert_job :: "env \<Rightarrow> nat \<Rightarrow> Job list \<Rightarrow> Job \<Rightarrow> failure + Job list" where
  "insert_job e i tbl j =
     (let row = column_defaults (uuid4 e i) (utcnow e i) j in
      if db_fault e i then Inl OperationalError
      else if module row = None \<or> kind row = None then Inl IntegrityError
      else if uuid row \<in> set (map uuid tbl) then Inl IntegrityError
      else Inr (tbl @ [row]))"

text \<open>
  The flush of a session: the pending objects are inserted in the order in which they
  were added. \<open>i\<close> counts the INSERTs of the run. The first failure aborts the flush.
\<close>

fun flush :: "env \<Rightarrow> nat \<Rightarrow> Job list \<Rightarrow> Job list \<Rightarrow> failure + Job list" where
  "flush e i tbl [] = Inr tbl"
| "flush e i tbl (j # js) =
     (case insert_job e i tbl j of
        Inl err \<Rightarrow> Inl err
      | Inr tbl' \<Rightarrow> flush e (Suc i) tbl' js)"

text \<open>
  A session: the committed database, the objects added and not yet flushed
  (\<^verbatim>\<open>session.new\<close>), and the number of INSERTs issued so far.
\<close>

record session =
  store :: database
  pending :: "Job list"
  inserts :: nat

definition session_add :: "session \<Rightarrow> Job \<Rightarrow> session" where
  "session_add s j = s\<lparr> pending := pending s @ [j] \<rparr>"

text \<open>
  \<^verbatim>\<open>session.commit()\<close>: flush the pending objects in one transaction and commit it. When
  an INSERT fails the transaction is rolled back, the committed database stays as it
  was, and the exception is raised.
\<close>

definition session_commit :: "env \<Rightarrow> session \<Rightarrow> (failure + unit) \<times> session" where
  "session_commit e s =
     (case flush e (inserts s) (jobs (store s)) (pending s) of
        Inl err \<Rightarrow> (Inl err, s\<lparr> pending := [] \<rparr>)
      | Inr tbl \<Rightarrow>
          (Inr (), s\<lparr> store := (store s)\<lparr> jobs := tbl \<rparr>, pending := [],
                      inserts := inserts s + length (pending s) \<rparr>))"

text \<open>
  Modelled from the spec: \<^verbatim>\<open>session_scope\<close>, the context manager of \<^verbatim>\<open>laniakea.db\<close>
  (not among the files modelled here), as the transactional scope that the spec's Job Store
  requires: the body runs on a fresh session; when it returns, the session is
  committed; when it raises, the session is rolled back and the exception is raised
  again. What is left is the committed database.
\<close>

definition session_scope ::
  "env \<Rightarrow> database \<Rightarrow> (session \<Rightarrow> (failure + 'a) \<times> session) \<Rightarrow> (failure + 'a) \<times> database" where
  "session_scope e db body =
     (case body \<lparr> store = db, pending = [], inserts = 0 \<rparr> of
        (Inl err, s) \<Rightarrow> (Inl err, store s)
      | (Inr v, s) \<Rightarrow>
          (case session_commit e s of
             (Inl err, s') \<Rightarrow> (Inl err, store s')
           | (Inr u, s') \<Rightarrow> (Inr v, store s')))"

text \<open>
  \<^verbatim>\<open>Query.one_or_none()\<close>: \<^verbatim>\<open>None\<close> for no row, the row when there is exactly one,
  \<^verbatim>\<open>MultipleResultsFound\<close> otherwise.
\<close>

fun one_or_none :: "'a list \<Rightarrow> failure + 'a option" where
  "one_or_none [] = Inr None"
| "one_or_none [x] = Inr (Some x)"
| "one_or_none (x # y # zs) = Inl MultipleResultsFound"

section \<open>Triggering an image build (admin/lkadmin/isotope.py)\<close>

text \<open>
  The body of the \<^verbatim>\<open>for arch in recipe.architectures\<close> loop of
  \<^verbatim>\<open>trigger_image_build\<close>: a new \<^verbatim>\<open>Job\<close> gets its module, kind, trigger and
  architecture and is added to the session.
\<close>

definition new_image_job :: "ImageBuildRecipe \<Rightarrow> string \<Rightarrow> Job" where
  "new_image_job recipe arch =
     Job_init\<lparr> module := Some LkModule_ISOTOPE,
               kind := Some JobKind_OS_IMAGE_BUILD,
               trigger := Some (recipe_uuid recipe),
               architecture := Some arch \<rparr>"

fun add_jobs :: "ImageBuildRecipe \<Rightarrow> string list \<Rightarrow> session \<Rightarrow> nat \<Rightarrow> session \<times> nat" where
  "add_jobs recipe [] s job_count = (s, job_count)"
| "add_jobs recipe (arch # archs) s job_count =
     add_jobs recipe archs (session_add s (new_image_job recipe arch)) (job_count + 1)"

text \<open>
  \<^verbatim>\<open>trigger_image_build(options)\<close>, with \<^verbatim>\<open>options.trigger_build\<close> as \<open>name\<close>. A recipe
  that is not found ends the program with \<^verbatim>\<open>sys.exit(2)\<close>. The loop adds one job per
  architecture; the one \<^verbatim>\<open>session.commit()\<close> comes after the loop. The result is the
  \<^verbatim>\<open>job_count\<close> that the function prints, and the database it leaves.
\<close>

definition trigger_image_build :: "env \<Rightarrow> database \<Rightarrow> string \<Rightarrow> (failure + nat) \<times> database" where
  "trigger_image_build e db name =
     session_scope e db (\<lambda>session.
       case one_or_none (filter (\<lambda>r. recipe_name r = name) (recipes (store session))) of
         Inl err \<Rightarrow> (Inl err, session)
       | Inr None \<Rightarrow> (Inl (SystemExit 2), session)
       | Inr (Some recipe) \<Rightarrow>
           (case add_jobs recipe (architectures recipe) session 0 of
              (session', job_count) \<Rightarrow>
                (case session_commit e session' of
                   (Inl err, s) \<Rightarrow> (Inl err, s)
                 | (Inr u, s) \<Rightarrow> (Inr job_count, s))))"

section \<open>Vocabulary of the statements\<close>

text \<open>
  The rows that a flush stores for the pending objects \<open>js\<close>, when no INSERT fails: each
  object with its column defaults, the \<open>i\<close>-th INSERT of the run drawing the \<open>i\<close>-th
  uuid and time.
\<close>

fun stored_rows :: "env \<Rightarrow> nat \<Rightarrow> Job list \<Rightarrow> Job list" where
  "stored_rows e i [] = []"
| "stored_rows e i (j # js) =
     column_defaults (uuid4 e i) (utcnow e i) j # stored_rows e (Suc i) js"

text \<open>The database server refuses none of the first \<open>k\<close> INSERTs of the run.\<close>

definition no_db_fault :: "env \<Rightarrow> nat \<Rightarrow> bool" where
  "no_db_fault e k \<longleftrightarrow> (\<forall>i<k. \<not> db_fault e i)"

text \<open>
  The first \<open>k\<close> values of \<^verbatim>\<open>uuid4()\<close> differ from each other and from every primary key
  of the table: what a random UUID is taken to be.
\<close>

definition fresh_uuids :: "env \<Rightarrow> Job list \<Rightarrow> nat \<Rightarrow> bool" where
  "fresh_uuids e tbl k \<longleftrightarrow>
     distinct (map (uuid4 e) [0..<k]) \<and> (\<forall>i<k. Some (uuid4 e i) \<notin> set (map uuid tbl))"

text \<open>The stored jobs whose \<^verbatim>\<open>trigger\<close> is \<open>t\<close>.\<close>

definition jobs_of_trigger :: "UUID \<Rightarrow> database \<Rightarrow> Job list" where
  "jobs_of_trigger t db = filter (\<lambda>j. trigger j = Some t) (jobs db)"

section \<open>The dispatcher and the state machine\<close>

text \<open>
  The files modelled above hold the job record and the trigger; the code that hands jobs to
  workers and moves them through their states is elsewhere in the repository. What
  follows is written from the specification, over the \<open>Job\<close> record above.
\<close>

text \<open>
  Modelled from the spec: the error taxonomy of the core (section 7); the dispatcher and
  the state machine that raise these errors are not in the sources.
\<close>

datatype core_error =
    ValidationError
  | NotFoundError
  | PreconditionError
  | ConflictError
  | DependencyError

text \<open>
  Modelled from the spec: the capability descriptor of a worker (section 3, Worker; the
  worker code is not in the sources): the worker's id, the architectures and the job
  kinds it supports.
\<close>

record capabilities =
  cap_worker :: UUID
  cap_architectures :: "string list"
  cap_kinds :: "string list"

text \<open>
  Modelled from the spec: the candidate set of \<open>ClaimNext\<close> (section 4.2; the dispatcher is
  not in the sources). A job can be claimed while it is \<open>Waiting\<close>, and section 4.4 keeps a
  \<open>Starving\<close> job claimable exactly as a \<open>Waiting\<close> one. It is eligible for a worker when
  its kind is among the worker's kinds and its architecture is the wildcard
  (\<^verbatim>\<open>'any'\<close>, the value named in jobs.py) or among the worker's architectures.
\<close>

definition claimable :: "Job \<Rightarrow> bool" where
  "claimable j \<longleftrightarrow> status j = Some JobStatus_WAITING \<or> status j = Some JobStatus_STARVING"

definition eligible :: "capabilities \<Rightarrow> Job \<Rightarrow> bool" where
  "eligible caps j \<longleftrightarrow>
     claimable j
     \<and> (case kind j of None \<Rightarrow> False | Some k \<Rightarrow> k \<in> set (cap_kinds caps))
     \<and> (case architecture j of
          None \<Rightarrow> False
        | Some a \<Rightarrow> a = ''any'' \<or> a \<in> set (cap_architectures caps))"

text \<open>
  Modelled from the spec: the order of the candidates (section 4.2): priority
  descending, ties broken by the time of creation ascending. The columns are compared
  as they are stored; an unset priority ranks below every priority that is set, and an
  unset time before every time that is set (the order of \<open>option\<close>). The sort is an
  insertion sort that keeps the order of the table among equal candidates.
\<close>

definition claim_before :: "Job \<Rightarrow> Job \<Rightarrow> bool" where
  "claim_before a b \<longleftrightarrow>
     priority b < priority a
     \<or> (priority a = priority b \<and> time_created a \<le> time_created b)"

fun insert_candidate :: "Job \<Rightarrow> Job list \<Rightarrow> Job list" where
  "insert_candidate j [] = [j]"
| "insert_candidate j (c # cs) =
     (if claim_before j c then j # c # cs else c # insert_candidate j cs)"

definition candidates :: "capabilities \<Rightarrow> Job list \<Rightarrow> Job list" where
  "candidates caps tbl = foldr insert_candidate (filter (eligible caps) tbl) []"

text \<open>
  Modelled from the spec: the claim protocol (sections 4.2 and 5): one atomic
  conditional update of the store, "update status to Scheduled where id = X and status
  = Waiting", which also sets the worker and the time of assignment. When no row is
  affected the claim is lost (\<open>ConflictError\<close>).
\<close>

definition claimed :: "UUID \<Rightarrow> datetime \<Rightarrow> Job \<Rightarrow> Job" where
  "claimed w now j =
     j\<lparr> status := Some JobStatus_SCHEDULED, worker := Some w, time_assigned := Some now \<rparr>"

definition try_claim :: "UUID \<Rightarrow> UUID \<Rightarrow> datetime \<Rightarrow> Job list \<Rightarrow> core_error + Job list" where
  "try_claim jid w now tbl =
     (if \<exists>j\<in>set tbl. uuid j = Some jid \<and> claimable j
      then Inr (map (\<lambda>j. if uuid j = Some jid \<and> claimable j then claimed w now j else j) tbl)
      else Inl ConflictError)"

text \<open>
  Modelled from the spec: \<open>ClaimNext\<close> (section 4.2). The dispatcher tries the candidates in
  their order; a lost claim makes it go on with the next candidate; it returns the job
  it has claimed, or nothing (Empty) when no candidate is left. A candidate without an
  id cannot be addressed and is passed over.
\<close>

fun claim_first :: "UUID \<Rightarrow> datetime \<Rightarrow> Job list \<Rightarrow> Job list \<Rightarrow> Job option \<times> Job list" where
  "claim_first w now [] tbl = (None, tbl)"
| "claim_first w now (c # cs) tbl =
     (case uuid c of
        None \<Rightarrow> claim_first w now cs tbl
      | Some jid \<Rightarrow>
          (case try_claim jid w now tbl of
             Inl err \<Rightarrow> claim_first w now cs tbl
           | Inr tbl' \<Rightarrow> (Some (claimed w now c), tbl')))"

definition ClaimNext :: "capabilities \<Rightarrow> datetime \<Rightarrow> Job list \<Rightarrow> Job option \<times> Job list" where
  "ClaimNext caps now tbl = claim_first (cap_worker caps) now (candidates caps tbl) tbl"

text \<open>
  Modelled from the spec: a write to the one job with a given id, guarded by a
  precondition on the stored row (sections 5 and 7; the state machine is not in the
  sources): \<open>NotFoundError\<close> when no job has the id, \<open>PreconditionError\<close> when the stored
  row does not permit the operation, and then nothing is changed.
\<close>

definition update_job ::
  "UUID \<Rightarrow> (Job \<Rightarrow> bool) \<Rightarrow> (Job \<Rightarrow> Job) \<Rightarrow> Job list \<Rightarrow> core_error + Job list" where
  "update_job jid pre f tbl =
     (case find (\<lambda>j. uuid j = Some jid) tbl of
        None \<Rightarrow> Inl NotFoundError
      | Some j \<Rightarrow>
          if pre j
          then Inr (map (\<lambda>r. if uuid r = Some jid \<and> pre r then f r else r) tbl)
          else Inl PreconditionError)"

text \<open>
  Modelled from the spec: the two terminal states (section 4.3), and the two ways in
  which a running job ends.
\<close>

definition terminal :: "Job \<Rightarrow> bool" where
  "terminal j \<longleftrightarrow> status j = Some JobStatus_DONE \<or> status j = Some JobStatus_TERMINATED"

datatype final = Done | Terminated

fun final_status :: "final \<Rightarrow> JobStatus" where
  "final_status Done = JobStatus_DONE"
| "final_status Terminated = JobStatus_TERMINATED"

text \<open>
  Modelled from the spec: the operations of section 6 and the transitions of section
  4.3, with the arguments they take: the job, the calling worker, times, the log
  excerpt, the result.
\<close>

datatype operation =
    OpClaimNext capabilities datetime
  | OpStartRunning UUID UUID
  | OpReportProgress UUID UUID string
  | OpComplete UUID UUID final JobResult datetime
  | OpConfirmResult UUID
  | OpMarkDependencyWait UUID
  | OpClearDependencyWait UUID
  | OpAbortDependency UUID datetime
  | OpRevokeClaim UUID
  | OpBoostPriority UUID int
  | OpForceTerminate UUID datetime
  | OpStarvationSweep datetime int

text \<open>
  Modelled from the spec: the starvation sweep (section 4.4): every \<open>Waiting\<close> job older
  than the threshold becomes \<open>Starving\<close>.
\<close>

definition starved :: "datetime \<Rightarrow> int \<Rightarrow> Job \<Rightarrow> bool" where
  "starved now threshold j \<longleftrightarrow>
     status j = Some JobStatus_WAITING
     \<and> (case time_created j of None \<Rightarrow> False | Some t \<Rightarrow> now - t > threshold)"

definition starvation_sweep :: "datetime \<Rightarrow> int \<Rightarrow> Job list \<Rightarrow> Job list" where
  "starvation_sweep now threshold tbl =
     map (\<lambda>j. if starved now threshold j then j\<lparr> status := Some JobStatus_STARVING \<rparr> else j) tbl"

text \<open>
  Modelled from the spec: the confirmation of a provisional result (section 4.3):
  \<open>SuccessPending\<close> becomes \<open>Success\<close>, \<open>FailurePending\<close> becomes \<open>Failure\<close>; the status is
  not touched.
\<close>

fun confirmed_result :: "JobResult option \<Rightarrow> JobResult option" where
  "confirmed_result (Some JobResult_SUCCESS_PENDING) = Some JobResult_SUCCESS"
| "confirmed_result (Some JobResult_FAILURE_PENDING) = Some JobResult_FAILURE"
| "confirmed_result r = r"

text \<open>
  Modelled from the spec: the state machine (sections 4.3, 5 and 6). Each operation
  with its precondition on the stored job and its effect:
  \<^item> \<open>ClaimNext\<close>: \<open>Waiting\<close> (or \<open>Starving\<close>) to \<open>Scheduled\<close>; Empty is no error;
  \<^item> \<open>StartRunning\<close>: \<open>Scheduled\<close> and held by the caller, to \<open>Running\<close>;
  \<^item> \<open>ReportProgress\<close>: \<open>Running\<close> and held by the caller; overwrites the log excerpt;
  \<^item> \<open>Complete\<close>: \<open>Running\<close> and held by the caller, to \<open>Done\<close> or \<open>Terminated\<close> with a result;
  \<^item> the confirmation of a result: a finished job with a pending result;
  \<^item> \<open>MarkDependencyWait\<close>: \<open>Waiting\<close> to \<open>DepWait\<close>; \<open>ClearDependencyWait\<close>: back;
  \<^item> the abort on a failed dependency: any status that is not terminal, to
    \<open>Terminated\<close> with \<open>FailureDependency\<close>;
  \<^item> the revocation of a claim: \<open>Scheduled\<close> to \<open>Waiting\<close>, the worker unset;
  \<^item> the priority boost: \<open>Starving\<close> to \<open>Waiting\<close>;
  \<^item> \<open>ForceTerminate\<close>: any status that is not terminal, to \<open>Terminated\<close>;
  \<^item> the starvation sweep.
\<close>

fun apply_operation :: "Job list \<Rightarrow> operation \<Rightarrow> core_error + Job list" where
  "apply_operation tbl (OpClaimNext caps now) = Inr (snd (ClaimNext caps now tbl))"
| "apply_operation tbl (OpStartRunning jid w) =
     update_job jid (\<lambda>j. status j = Some JobStatus_SCHEDULED \<and> worker j = Some w)
       (\<lambda>j. j\<lparr> status := Some JobStatus_RUNNING \<rparr>) tbl"
| "apply_operation tbl (OpReportProgress jid w excerpt) =
     update_job jid (\<lambda>j. status j = Some JobStatus_RUNNING \<and> worker j = Some w)
       (\<lambda>j. j\<lparr> latest_log_excerpt := Some excerpt \<rparr>) tbl"
| "apply_operation tbl (OpComplete jid w fin res now) =
     update_job jid (\<lambda>j. status j = Some JobStatus_RUNNING \<and> worker j = Some w)
       (\<lambda>j. j\<lparr> status := Some (final_status fin), result := Some res,
                time_finished := Some now \<rparr>) tbl"
| "apply_operation tbl (OpConfirmResult jid) =
     update_job jid
       (\<lambda>j. terminal j \<and> (result j = Some JobResult_SUCCESS_PENDING
                            \<or> result j = Some JobResult_FAILURE_PENDING))
       (\<lambda>j. j\<lparr> result := confirmed_result (result j) \<rparr>) tbl"
| "apply_operation tbl (OpMarkDependencyWait jid) =
     update_job jid (\<lambda>j. status j = Some JobStatus_WAITING)
       (\<lambda>j. j\<lparr> status := Some JobStatus_DEPWAIT \<rparr>) tbl"
| "apply_operation tbl (OpClearDependencyWait jid) =
     update_job jid (\<lambda>j. status j = Some JobStatus_DEPWAIT)
       (\<lambda>j. j\<lparr> status := Some JobStatus_WAITING \<rparr>) tbl"
| "apply_operation tbl (OpAbortDependency jid now) =
     update_job jid (\<lambda>j. \<not> terminal j)
       (\<lambda>j. j\<lparr> status := Some JobStatus_TERMINATED,
                result := Some JobResult_FAILURE_DEPENDENCY, time_finished := Some now \<rparr>) tbl"
| "apply_operation tbl (OpRevokeClaim jid) =
     update_job jid (\<lambda>j. status j = Some JobStatus_SCHEDULED)
       (\<lambda>j. j\<lparr> status := Some JobStatus_WAITING, worker := None, time_assigned := None \<rparr>) tbl"
| "apply_operation tbl (OpBoostPriority jid p) =
     update_job jid (\<lambda>j. status j = Some JobStatus_STARVING)
       (\<lambda>j. j\<lparr> status := Some JobStatus_WAITING, priority := Some p \<rparr>) tbl"
| "apply_operation tbl (OpForceTerminate jid now) =
     update_job jid (\<lambda>j. \<not> terminal j)
       (\<lambda>j. j\<lparr> status := Some JobStatus_TERMINATED, time_finished := Some now \<rparr>) tbl"
| "apply_operation tbl (OpStarvationSweep now threshold) =
     Inr (starvation_sweep now threshold tbl)"

text \<open>
  Modelled from the spec: a sequence of operations (section 7): an operation that is
  rejected leaves the store as it was, and the next one is applied.
\<close>

fun run_operations :: "Job list \<Rightarrow> operation list \<Rightarrow> Job list" where
  "run_operations tbl [] = tbl"
| "run_operations tbl (x # xs) =
     (case apply_operation tbl x of
        Inl err \<Rightarrow> run_operations tbl xs
      | Inr tbl' \<Rightarrow> run_operations tbl' xs)"

text \<open>
  The primary key of the \<^verbatim>\<open>jobs\<close> table (\<^verbatim>\<open>uuid\<close>, \<^verbatim>\<open>primary_key=True\<close> in jobs.py): every
  row has an id, and no two rows share one.
\<close>

definition primary_key :: "Job list \<Rightarrow> bool" where
  "primary_key tbl \<longleftrightarrow> None \<notin> set (map uuid tbl) \<and> distinct (map uuid tbl)"

text \<open>
  The relation between a stored job and the same job later, used to state that the
  terminal states are final: the id is the same, and a job that was \<open>Done\<close> or
  \<open>Terminated\<close> still has the status it had.
\<close>

definition status_kept :: "Job \<Rightarrow> Job \<Rightarrow> bool" where
  "status_kept a b \<longleftrightarrow> uuid b = uuid a \<and> (terminal a \<longrightarrow> status b = status a)"

section \<open>Concurrent callers of the dispatcher\<close>

text \<open>
  Modelled from the spec: a caller of \<open>ClaimNext\<close> as a process of its own (sections 4.2
  and 5; the dispatcher is not in the sources). Dispatchers run as independent processes
  against the one store, and what they do to the store is atomic step by step: the
  query that reads the candidates, and each conditional update. A caller is idle before
  its query, then tries the candidates it has read in their order, and ends with the job
  it got or with nothing (Empty).
\<close>

datatype caller =
    Idle capabilities
  | Trying capabilities "Job list"
  | Got Job
  | Empty

text \<open>
  Modelled from the spec: one atomic step of a caller on the store as it is at that
  moment: the query, or one conditional update (the \<open>try_claim\<close> of \<open>claim_first\<close>), after
  which the caller has the job or goes on with its next candidate. A caller that has
  returned does nothing more.
\<close>

fun caller_step :: "datetime \<Rightarrow> caller \<Rightarrow> Job list \<Rightarrow> caller \<times> Job list" where
  "caller_step now (Idle caps) tbl = (Trying caps (candidates caps tbl), tbl)"
| "caller_step now (Trying caps []) tbl = (Empty, tbl)"
| "caller_step now (Trying caps (c # cs)) tbl =
     (case uuid c of
        None \<Rightarrow> (Trying caps cs, tbl)
      | Some jid \<Rightarrow>
          (case try_claim jid (cap_worker caps) now tbl of
             Inl err \<Rightarrow> (Trying caps cs, tbl)
           | Inr tbl' \<Rightarrow> (Got (claimed (cap_worker caps) now c), tbl')))"
| "caller_step now (Got j) tbl = (Got j, tbl)"
| "caller_step now Empty tbl = (Empty, tbl)"

text \<open>
  Modelled from the spec: the interleaving of the callers. A schedule names, step by
  step, the caller that moves and the time of the move; the state is the store and the
  list of the callers.
\<close>

fun sched_step :: "Job list \<times> caller list \<Rightarrow> nat \<times> datetime \<Rightarrow> Job list \<times> caller list" where
  "sched_step (tbl, cs) (i, now) =
     (if i < length cs
      then (case caller_step now (cs ! i) tbl of (c', tbl') \<Rightarrow> (tbl', cs[i := c']))
      else (tbl, cs))"

definition run_schedule ::
  "(nat \<times> datetime) list \<Rightarrow> Job list \<times> caller list \<Rightarrow> Job list \<times> caller list" where
  "run_schedule sch st = foldl sched_step st sch"

text \<open>A caller has returned when it has a job or Empty.\<close>

fun returned :: "caller \<Rightarrow> bool" where
  "returned (Got j) = True"
| "returned Empty = True"
| "returned (Idle caps) = False"
| "returned (Trying caps cs) = False"

text \<open>
  The invariants of the interleaving. \<open>exclusive\<close>: a job that a caller holds has an id,
  no row of that id can be claimed any more, and no two callers hold jobs of the same
  id. \<open>single_job_inv\<close>, for a store in which the job \<open>jid\<close> is the only one eligible for
  the callers: every caller has its own capabilities, tries only that job and holds
  only that job; and either the job is still to be claimed and no caller has returned,
  or one caller holds it and the store names that caller as its worker. \<open>steps_left\<close>
  bounds the steps a caller still takes, for a store of \<open>n\<close> rows.
\<close>

fun caller_ok :: "UUID \<Rightarrow> capabilities \<Rightarrow> caller \<Rightarrow> bool" where
  "caller_ok jid caps (Idle caps') \<longleftrightarrow> caps' = caps"
| "caller_ok jid caps (Trying caps' l) \<longleftrightarrow> caps' = caps \<and> (\<forall>c\<in>set l. uuid c = Some jid)"
| "caller_ok jid caps (Got g) \<longleftrightarrow>
     uuid g = Some jid \<and> status g = Some JobStatus_SCHEDULED \<and> worker g = Some (cap_worker caps)"
| "caller_ok jid caps Empty \<longleftrightarrow> True"

fun in_progress :: "caller \<Rightarrow> bool" where
  "in_progress (Idle caps) = True"
| "in_progress (Trying caps l) = (l \<noteq> [])"
| "in_progress (Got g) = False"
| "in_progress Empty = False"

definition exclusive :: "Job list \<times> caller list \<Rightarrow> bool" where
  "exclusive st \<longleftrightarrow> (case st of (tbl, cs) \<Rightarrow>
     (\<forall>i<length cs. \<forall>g. cs ! i = Got g \<longrightarrow>
        uuid g \<noteq> None \<and> (\<forall>r\<in>set tbl. uuid r = uuid g \<longrightarrow> \<not> claimable r))
     \<and> (\<forall>i<length cs. \<forall>k<length cs. \<forall>g h.
          i \<noteq> k \<and> cs ! i = Got g \<and> cs ! k = Got h \<longrightarrow> uuid g \<noteq> uuid h))"

definition single_job_inv :: "UUID \<Rightarrow> capabilities list \<Rightarrow> Job list \<times> caller list \<Rightarrow> bool" where
  "single_job_inv jid capss st \<longleftrightarrow> (case st of (tbl, cs) \<Rightarrow>
     length cs = length capss
     \<and> (\<forall>i<length cs. caller_ok jid (capss ! i) (cs ! i))
     \<and> (\<forall>caps\<in>set capss. \<forall>r\<in>set tbl. eligible caps r \<longrightarrow> uuid r = Some jid)
     \<and> (((\<forall>caps\<in>set capss. \<forall>r\<in>set tbl. uuid r = Some jid \<longrightarrow> eligible caps r)
          \<and> (\<exists>r\<in>set tbl. uuid r = Some jid)
          \<and> (\<forall>i<length cs. in_progress (cs ! i)))
        \<or> (\<exists>i<length cs. (\<exists>g. cs ! i = Got g)
              \<and> (\<forall>r\<in>set tbl. uuid r = Some jid \<longrightarrow>
                    status r = Some JobStatus_SCHEDULED
                    \<and> worker r = Some (cap_worker (capss ! i))))))"

fun steps_left :: "nat \<Rightarrow> caller \<Rightarrow> nat" where
  "steps_left n (Idle caps) = n + 2"
| "steps_left n (Trying caps l) = length l + 1"
| "steps_left n (Got g) = 0"
| "steps_left n Empty = 0"

section \<open>Concrete inputs\<close>

text \<open>
  An environment without faults whose uuids are 100, 101, ...; one whose uuids are 200,
  201, ...; and one in which the database refuses the second INSERT.
\<close>

definition e0 :: env where
  "e0 = \<lparr> uuid4 = (\<lambda>i. 100 + of_nat i), utcnow = (\<lambda>i. 1000 + int i),
          db_fault = (\<lambda>i. False) \<rparr>"

definition e0' :: env where
  "e0' = e0\<lparr> uuid4 := (\<lambda>i. 200 + of_nat i) \<rparr>"

definition e_fault :: env where
  "e_fault = e0\<lparr> db_fault := (\<lambda>i. i = 1) \<rparr>"

text \<open>
  A database with one recipe for two architectures and no jobs; one whose recipe lists
  no architecture; and one that already holds a finished job.
\<close>

definition db0 :: database where
  "db0 = \<lparr> recipes = [\<lparr> recipe_name = ''debian-live'', recipe_uuid = 7,
                         architectures = [''amd64'', ''arm64''] \<rparr>],
           jobs = [] \<rparr>"

definition db_bare :: database where
  "db_bare = \<lparr> recipes = [\<lparr> recipe_name = ''bare'', recipe_uuid = 9, architectures = [] \<rparr>],
               jobs = [] \<rparr>"

definition db_done :: database where
  "db_done = db0\<lparr> jobs := [Job_init\<lparr> uuid := Some 1, status := Some JobStatus_DONE,
     module := Some LkModule_ISOTOPE, kind := Some JobKind_OS_IMAGE_BUILD, trigger := Some 7,
     architecture := Some ''amd64'', time_created := Some 5, time_assigned := Some 6,
     time_finished := Some 8, worker := Some 3,
     result := Some JobResult_SUCCESS \<rparr>] \<rparr>"


text \<open>
  Waiting image-build jobs with a given id, architecture, priority and time of creation:
  the jobs A (priority 10, created at 1), B (priority 20, created at 2) and C (priority
  10, created at 2), a job for \<^verbatim>\<open>arm64\<close> and a job for any architecture; and a worker for
  \<^verbatim>\<open>amd64\<close> image builds.
\<close>

definition mk_job :: "UUID \<Rightarrow> string \<Rightarrow> int \<Rightarrow> datetime \<Rightarrow> Job" where
  "mk_job u arch p t = Job_init\<lparr> uuid := Some u, status := Some JobStatus_WAITING,
     module := Some LkModule_ISOTOPE, kind := Some JobKind_OS_IMAGE_BUILD,
     architecture := Some arch, time_created := Some t, priority := Some p,
     result := Some JobResult_UNKNOWN \<rparr>"

definition job_A :: Job where
  "job_A = mk_job 1 ''amd64'' 10 1"

definition job_B :: Job where
  "job_B = mk_job 2 ''amd64'' 20 2"

definition job_C :: Job where
  "job_C = mk_job 3 ''amd64'' 10 2"

definition job_arm :: Job where
  "job_arm = mk_job 4 ''arm64'' 10 1"

definition job_any :: Job where
  "job_any = mk_job 5 ''any'' 10 1"

definition caps0 :: capabilities where
  "caps0 = \<lparr> cap_worker = 50, cap_architectures = [''amd64''],
             cap_kinds = [''os-image-build''] \<rparr>"

text \<open>One operation of every kind, aimed at the finished job of \<open>db_done\<close>.\<close>

definition ops0 :: "operation list" where
  "ops0 = [OpForceTerminate 1 10, OpClaimNext caps0 11, OpStartRunning 1 3,
           OpComplete 1 3 Terminated JobResult_FAILURE 12, OpMarkDependencyWait 1,
           OpClearDependencyWait 1, OpAbortDependency 1 13, OpRevokeClaim 1,
           OpBoostPriority 1 99, OpStarvationSweep 1000 5, OpReportProgress 1 3 ''log'',
           OpConfirmResult 1]"

text \<open>
  Three workers with the capabilities of \<open>caps0\<close>, and a schedule in which the second
  one runs its query and its conditional update between the query and the update of
  the first.
\<close>

definition capss0 :: "capabilities list" where
  "capss0 = [caps0, caps0\<lparr> cap_worker := 51 \<rparr>, caps0\<lparr> cap_worker := 52 \<rparr>]"

definition sch0 :: "(nat \<times> datetime) list" where
  "sch0 = [(0, 10), (1, 11), (1, 12), (0, 13), (2, 14), (2, 15), (0, 16), (1, 17)]"

section \<open>Properties of the session and of \<open>trigger_image_build\<close>\<close>

lemma add_jobs_eq:
  "add_jobs recipe archs s n =
     (s\<lparr> pending := pending s @ map (new_image_job recipe) archs \<rparr>, n + length archs)"
  by (induction archs arbitrary: s n) (simp_all add: session_add_def)

lemma length_stored_rows [simp]: "length (stored_rows e i js) = length js"
  by (induction js arbitrary: i) simp_all

lemma uuid_stored_rows:
  "\<forall>j\<in>set js. uuid j = None \<Longrightarrow>
   map uuid (stored_rows e i js) = map (\<lambda>m. Some (uuid4 e m)) [i..<i + length js]"
proof (induction js arbitrary: i)
  case Nil
  then show ?case by simp
next
  case (Cons j js)
  have "[i..<i + length (j # js)] = i # [Suc i..<Suc i + length js]"
    by (simp add: upt_rec)
  with Cons show ?case
    by (simp add: column_defaults_def or_default_def)
qed

lemma flush_ok:
  assumes "\<forall>j\<in>set js. uuid j = None \<and> module j \<noteq> None \<and> kind j \<noteq> None"
    and "\<forall>m<length js. \<not> db_fault e (i + m)"
    and "\<forall>m<length js. Some (uuid4 e (i + m)) \<notin> set (map uuid tbl)"
    and "distinct (map (uuid4 e) [i..<i + length js])"
  shows "flush e i tbl js = Inr (tbl @ stored_rows e i js)"
  using assms
proof (induction js arbitrary: i tbl)
  case Nil
  then show ?case by simp
next
  case (Cons j js)
  let ?row = "column_defaults (uuid4 e i) (utcnow e i) j"
  have upt: "[i..<i + length (j # js)] = i # [Suc i..<Suc i + length js]"
    by (simp add: upt_rec)
  have j: "uuid j = None" "module j \<noteq> None" "kind j \<noteq> None"
    using Cons.prems(1) by simp_all
  have row: "uuid ?row = Some (uuid4 e i)" "module ?row = module j" "kind ?row = kind j"
    using j by (simp_all add: column_defaults_def or_default_def)
  have nf: "\<not> db_fault e i"
    using Cons.prems(2) [rule_format, of 0] by simp
  have fr: "Some (uuid4 e i) \<notin> set (map uuid tbl)"
    using Cons.prems(3) [rule_format, of 0] by simp
  have ins: "insert_job e i tbl j = Inr (tbl @ [?row])"
    using j row nf fr by (simp add: insert_job_def Let_def)
  have p1: "\<forall>j\<in>set js. uuid j = None \<and> module j \<noteq> None \<and> kind j \<noteq> None"
    using Cons.prems(1) by simp
  have p2: "\<forall>m<length js. \<not> db_fault e (Suc i + m)"
    using Cons.prems(2) by (metis add_Suc_shift length_Cons Suc_less_eq add_Suc_right)
  have "distinct (map (uuid4 e) (i # [Suc i..<Suc i + length js]))"
    using Cons.prems(4) by (simp only: upt)
  then have "uuid4 e i \<notin> uuid4 e ` {Suc i..<Suc i + length js}
      \<and> distinct (map (uuid4 e) [Suc i..<Suc i + length js])"
    by (simp only: list.map distinct.simps set_map set_upt simp_thms)
  then have d: "distinct (map (uuid4 e) [Suc i..<Suc i + length js])"
      "uuid4 e i \<notin> uuid4 e ` {Suc i..<Suc i + length js}"
    by blast+
  have p3: "\<forall>m<length js. Some (uuid4 e (Suc i + m)) \<notin> set (map uuid (tbl @ [?row]))"
  proof (intro allI impI)
    fix m assume m: "m < length js"
    have "Some (uuid4 e (i + Suc m)) \<notin> set (map uuid tbl)"
      using Cons.prems(3) [rule_format, of "Suc m"] m by simp
    moreover have "Suc i + m \<in> {Suc i..<Suc i + length js}"
      using m by simp
    then have "uuid4 e (Suc i + m) \<in> uuid4 e ` {Suc i..<Suc i + length js}"
      by (rule imageI)
    with d(2) have "uuid4 e (Suc i + m) \<noteq> uuid4 e i"
      by metis
    ultimately show "Some (uuid4 e (Suc i + m)) \<notin> set (map uuid (tbl @ [?row]))"
      using row(1) by simp
  qed
  have "flush e (Suc i) (tbl @ [?row]) js = Inr ((tbl @ [?row]) @ stored_rows e (Suc i) js)"
    using Cons.IH [OF p1 p2 p3 d(1)] .
  then show ?case
    using ins by simp
qed

lemma flush_Inr_append:
  "flush e i tbl js = Inr tbl' \<Longrightarrow> tbl' = tbl @ stored_rows e i js"
proof (induction js arbitrary: i tbl)
  case Nil
  then show ?case by simp
next
  case (Cons j js)
  from Cons.prems obtain t where
    t: "insert_job e i tbl j = Inr t" and f: "flush e (Suc i) t js = Inr tbl'"
    by (auto split: sum.splits)
  from t have "t = tbl @ [column_defaults (uuid4 e i) (utcnow e i) j]"
    by (auto simp: insert_job_def Let_def split: if_splits)
  with Cons.IH [OF f] show ?case by simp
qed

lemma stored_rows_new_image_job:
  "r \<in> set (stored_rows e i (map (new_image_job recipe) archs)) \<Longrightarrow>
     trigger r = Some (recipe_uuid recipe) \<and> module r = Some LkModule_ISOTOPE
     \<and> kind r = Some JobKind_OS_IMAGE_BUILD \<and> status r = Some JobStatus_WAITING
     \<and> result r = Some JobResult_UNKNOWN"
  by (induction archs arbitrary: i)
     (auto simp: new_image_job_def Job_init_def column_defaults_def or_default_def)

lemma architecture_stored_rows:
  "map architecture (stored_rows e i (map (new_image_job recipe) archs)) = map Some archs"
  by (induction archs arbitrary: i)
     (simp_all add: new_image_job_def Job_init_def column_defaults_def or_default_def)

lemma new_image_job_insertable:
  "\<forall>j\<in>set (map (new_image_job recipe) archs).
     uuid j = None \<and> module j \<noteq> None \<and> kind j \<noteq> None"
  by (simp add: new_image_job_def Job_init_def)

lemma trigger_image_build_found:
  assumes "filter (\<lambda>r. recipe_name r = name) (recipes db) = [recipe]"
  shows "trigger_image_build e db name =
     (case flush e 0 (jobs db) (map (new_image_job recipe) (architectures recipe)) of
        Inl err \<Rightarrow> (Inl err, db)
      | Inr tbl \<Rightarrow> (Inr (length (architectures recipe)), db\<lparr> jobs := tbl \<rparr>))"
  using assms
  by (simp add: trigger_image_build_def session_scope_def session_commit_def add_jobs_eq
      split: sum.splits)

lemma trigger_image_build_not_found:
  assumes "filter (\<lambda>r. recipe_name r = name) (recipes db) = []"
  shows "trigger_image_build e db name = (Inl (SystemExit 2), db)"
  using assms by (simp add: trigger_image_build_def session_scope_def)

lemma trigger_image_build_multiple:
  assumes "filter (\<lambda>r. recipe_name r = name) (recipes db) = x # y # zs"
  shows "trigger_image_build e db name = (Inl MultipleResultsFound, db)"
  using assms by (simp add: trigger_image_build_def session_scope_def)

lemma flush_new_image_jobs:
  assumes "no_db_fault e (length archs)" and "fresh_uuids e tbl (length archs)"
  shows "flush e 0 tbl (map (new_image_job recipe) archs) =
     Inr (tbl @ stored_rows e 0 (map (new_image_job recipe) archs))"
proof (rule flush_ok)
  show "\<forall>j\<in>set (map (new_image_job recipe) archs).
     uuid j = None \<and> module j \<noteq> None \<and> kind j \<noteq> None"
    by (rule new_image_job_insertable)
  show "\<forall>m<length (map (new_image_job recipe) archs). \<not> db_fault e (0 + m)"
    using assms(1) by (simp add: no_db_fault_def)
  show "\<forall>m<length (map (new_image_job recipe) archs).
     Some (uuid4 e (0 + m)) \<notin> set (map uuid tbl)"
    using assms(2) by (simp add: fresh_uuids_def)
  show "distinct (map (uuid4 e) [0..<0 + length (map (new_image_job recipe) archs)])"
    using assms(2) by (simp add: fresh_uuids_def)
qed

lemma trigger_image_build_succeeds:
  assumes "filter (\<lambda>r. recipe_name r = name) (recipes db) = [recipe]"
    and "no_db_fault e (length (architectures recipe))"
    and "fresh_uuids e (jobs db) (length (architectures recipe))"
  shows "trigger_image_build e db name =
     (Inr (length (architectures recipe)),
      db\<lparr> jobs := jobs db
             @ stored_rows e 0 (map (new_image_job recipe) (architectures recipe)) \<rparr>)"
  by (simp add: trigger_image_build_found [OF assms(1)]
      flush_new_image_jobs [OF assms(2) assms(3)])

lemma filter_trigger_stored_rows:
  "filter (\<lambda>j. trigger j = Some (recipe_uuid recipe))
     (stored_rows e i (map (new_image_job recipe) archs)) =
   stored_rows e i (map (new_image_job recipe) archs)"
  using stored_rows_new_image_job [of _ e i recipe archs] by (simp add: filter_id_conv)

lemma distinct_map_Some: "distinct xs \<Longrightarrow> distinct (map Some xs)"
  by (simp add: distinct_map)

lemma fresh_rows_distinct:
  assumes "fresh_uuids e tbl (length js)" and "\<forall>j\<in>set js. uuid j = None"
  shows "distinct (map uuid (stored_rows e 0 js))"
    and "set (map uuid (stored_rows e 0 js)) \<inter> set (map uuid tbl) = {}"
proof -
  have eq: "map uuid (stored_rows e 0 js) = map Some (map (uuid4 e) [0..<length js])"
    using uuid_stored_rows [OF assms(2), of e 0] by simp
  have "distinct (map (uuid4 e) [0..<length js])"
    using assms(1) by (simp add: fresh_uuids_def)
  then have "distinct (map Some (map (uuid4 e) [0..<length js]))"
    by (rule distinct_map_Some)
  then show "distinct (map uuid (stored_rows e 0 js))"
    by (simp only: eq)
  have "\<forall>i<length js. Some (uuid4 e i) \<notin> set (map uuid tbl)"
    using assms(1) by (simp add: fresh_uuids_def)
  then show "set (map uuid (stored_rows e 0 js)) \<inter> set (map uuid tbl) = {}"
    unfolding eq by auto
qed

lemma db0_lookup:
  "filter (\<lambda>r. recipe_name r = ''debian-live'') (recipes db0) =
     [\<lparr> recipe_name = ''debian-live'', recipe_uuid = 7, architectures = [''amd64'', ''arm64''] \<rparr>]"
  by (simp add: db0_def)



section \<open>The claims about \<open>trigger_image_build\<close> and the job record\<close>

text \<open>
  C2. For a recipe with \<open>k\<close> architectures, \<^verbatim>\<open>trigger_image_build\<close> creates exactly \<open>k\<close>
  jobs, one per architecture in the order of the list, all with the recipe's uuid as
  trigger, the same module and the same kind, and each stored job has status
  \<^verbatim>\<open>WAITING\<close> and result \<^verbatim>\<open>UNKNOWN\<close>. The run is one in which the recipe is found by its
  name, the database refuses no INSERT and the random uuids are fresh; the statement
  holds for the empty list as well (\<open>k = 0\<close>).
\<close>

theorem trigger_image_build_creates_jobs:
  assumes "filter (\<lambda>r. recipe_name r = name) (recipes db) = [recipe]"
    and "no_db_fault e (length (architectures recipe))"
    and "fresh_uuids e (jobs db) (length (architectures recipe))"
  shows "\<exists>new.
     trigger_image_build e db name =
       (Inr (length (architectures recipe)), db\<lparr> jobs := jobs db @ new \<rparr>)
     \<and> length new = length (architectures recipe)
     \<and> map architecture new = map Some (architectures recipe)
     \<and> (\<forall>j\<in>set new.
           trigger j = Some (recipe_uuid recipe)
           \<and> module j = Some LkModule_ISOTOPE
           \<and> kind j = Some JobKind_OS_IMAGE_BUILD
           \<and> status j = Some JobStatus_WAITING
           \<and> result j = Some JobResult_UNKNOWN)"
proof -
  let ?new = "stored_rows e 0 (map (new_image_job recipe) (architectures recipe))"
  have "trigger_image_build e db name =
      (Inr (length (architectures recipe)), db\<lparr> jobs := jobs db @ ?new \<rparr>)"
    by (simp add: trigger_image_build_found [OF assms(1)]
        flush_new_image_jobs [OF assms(2) assms(3)])
  moreover have "length ?new = length (architectures recipe)"
    by simp
  moreover have "map architecture ?new = map Some (architectures recipe)"
    by (rule architecture_stored_rows)
  moreover have "\<forall>j\<in>set ?new.
           trigger j = Some (recipe_uuid recipe)
           \<and> module j = Some LkModule_ISOTOPE
           \<and> kind j = Some JobKind_OS_IMAGE_BUILD
           \<and> status j = Some JobStatus_WAITING
           \<and> result j = Some JobResult_UNKNOWN"
    using stored_rows_new_image_job by blast
  ultimately show ?thesis by blast
qed

theorem trigger_image_build_creates_jobs_witness:
  "\<exists>new. trigger_image_build e0 db0 ''debian-live'' = (Inr 2, db0\<lparr> jobs := new \<rparr>)
     \<and> map architecture new = [Some ''amd64'', Some ''arm64'']
     \<and> map status new = [Some JobStatus_WAITING, Some JobStatus_WAITING]"
proof -
  let ?r = "\<lparr> recipe_name = ''debian-live'', recipe_uuid = 7,
              architectures = [''amd64'', ''arm64''] \<rparr>"
  have f: "no_db_fault e0 (length (architectures ?r))"
    by (simp add: no_db_fault_def e0_def)
  have u: "fresh_uuids e0 (jobs db0) (length (architectures ?r))"
    by (simp add: fresh_uuids_def e0_def db0_def upt_rec)
  from trigger_image_build_creates_jobs [OF db0_lookup f u]
  obtain new where n: "trigger_image_build e0 db0 ''debian-live'' = (Inr 2, db0\<lparr> jobs := jobs db0 @ new \<rparr>)"
    "length new = 2" "map architecture new = [Some ''amd64'', Some ''arm64'']"
    "\<forall>j\<in>set new. status j = Some JobStatus_WAITING"
    by auto
  from n(2) obtain a b where ab: "new = [a, b]"
    by (metis (no_types, opaque_lifting) One_nat_def Suc_1 length_0_conv length_Suc_conv)
  show ?thesis
    using n ab by (auto simp: db0_def)
qed

text \<open>
  C3, as amended. When the recipe's list of architectures is empty,
  \<^verbatim>\<open>trigger_image_build\<close> does not fail: the loop body never runs, the commit of the
  empty session succeeds, the function reports 0 jobs and the database is unchanged.
  The function has no check of the list and raises no validation error.
\<close>

theorem trigger_image_build_no_architectures:
  assumes "filter (\<lambda>r. recipe_name r = name) (recipes db) = [recipe]"
    and "architectures recipe = []"
  shows "trigger_image_build e db name = (Inr 0, db)"
  by (simp add: trigger_image_build_found [OF assms(1)] assms(2))

theorem trigger_image_build_no_architectures_witness:
  "trigger_image_build e0 db_bare ''bare'' = (Inr 0, db_bare)"
proof -
  have "filter (\<lambda>r. recipe_name r = ''bare'') (recipes db_bare) =
      [\<lparr> recipe_name = ''bare'', recipe_uuid = 9, architectures = [] \<rparr>]"
    by (simp add: db_bare_def)
  from trigger_image_build_no_architectures [OF this] show ?thesis by simp
qed

text \<open>
  The claim as stated (an empty list makes the call fail) is false for the recipe
  \<^verbatim>\<open>bare\<close> of \<open>db_bare\<close>: the call returns normally with count 0.
\<close>

theorem trigger_image_build_empty_counterexample:
  "fst (trigger_image_build e0 db_bare ''bare'') = Inr 0
   \<and> \<not> isl (fst (trigger_image_build e0 db_bare ''bare''))
   \<and> snd (trigger_image_build e0 db_bare ''bare'') = db_bare"
  by (simp add: trigger_image_build_def session_scope_def session_commit_def db_bare_def)

text \<open>
  C4. Job creation is all-or-nothing. Whatever the environment does, a call of
  \<^verbatim>\<open>trigger_image_build\<close> that fails (recipe not found, several recipes of that name, an
  INSERT refused or violating a constraint anywhere in the batch) leaves the database
  as it was; a call that succeeds has found the recipe and has appended exactly one job
  per architecture, each carrying the recipe's uuid as trigger. The one
  \<^verbatim>\<open>session.commit()\<close> after the loop is what makes it so.
\<close>

theorem trigger_image_build_all_or_nothing:
  "case trigger_image_build e db name of
     (Inl err, db') \<Rightarrow> db' = db
   | (Inr n, db') \<Rightarrow>
       (\<exists>recipe new.
          filter (\<lambda>r. recipe_name r = name) (recipes db) = [recipe]
          \<and> n = length (architectures recipe)
          \<and> db' = db\<lparr> jobs := jobs db @ new \<rparr>
          \<and> length new = n
          \<and> (\<forall>j\<in>set new. trigger j = Some (recipe_uuid recipe)))"
proof (cases "filter (\<lambda>r. recipe_name r = name) (recipes db)" rule: one_or_none.cases)
  case 1
  then show ?thesis
    by (simp add: trigger_image_build_not_found)
next
  case (2 recipe)
  let ?js = "map (new_image_job recipe) (architectures recipe)"
  show ?thesis
  proof (cases "flush e 0 (jobs db) ?js")
    case (Inl err)
    then show ?thesis
      by (simp add: trigger_image_build_found [OF 2])
  next
    case (Inr tbl)
    then have tbl: "tbl = jobs db @ stored_rows e 0 ?js"
      by (rule flush_Inr_append)
    have "\<forall>j\<in>set (stored_rows e 0 ?js). trigger j = Some (recipe_uuid recipe)"
      using stored_rows_new_image_job by blast
    then have "\<exists>r new.
          filter (\<lambda>r. recipe_name r = name) (recipes db) = [r]
          \<and> length (architectures recipe) = length (architectures r)
          \<and> db\<lparr> jobs := tbl \<rparr> = db\<lparr> jobs := jobs db @ new \<rparr>
          \<and> length new = length (architectures recipe)
          \<and> (\<forall>j\<in>set new. trigger j = Some (recipe_uuid r))"
      using tbl 2
      by (intro exI [of _ recipe] exI [of _ "stored_rows e 0 ?js"]) simp
    then show ?thesis
      using Inr by (simp add: trigger_image_build_found [OF 2])
  qed
next
  case (3 x y zs)
  then show ?thesis
    by (simp add: trigger_image_build_multiple)
qed

text \<open>
  With \<open>e_fault\<close> the first INSERT of the batch passes and the second is refused: no job
  is left behind.
\<close>

theorem trigger_image_build_all_or_nothing_witness:
  "fst (trigger_image_build e_fault db0 ''debian-live'') = Inl OperationalError
   \<and> snd (trigger_image_build e_fault db0 ''debian-live'') = db0"
proof -
  have f: "fst (trigger_image_build e_fault db0 ''debian-live'') = Inl OperationalError"
    by (simp add: trigger_image_build_def session_scope_def session_commit_def e_fault_def
        e0_def db0_def session_add_def insert_job_def column_defaults_def or_default_def
        new_image_job_def Job_init_def)
  then show ?thesis
    using trigger_image_build_all_or_nothing
      [where e = e_fault and db = db0 and name = "''debian-live''"]
    by (cases "trigger_image_build e_fault db0 ''debian-live''") auto
qed

text \<open>
  C5. Two calls of \<^verbatim>\<open>trigger_image_build\<close> for the same recipe, in runs without database
  faults and with fresh uuids, both succeed, and the second batch is added to the
  first: the table grows by \<open>2 * k\<close> rows behind the rows it had, the number of jobs
  carrying the recipe's uuid as trigger grows by \<open>2 * k\<close>, the \<open>2 * k\<close> new jobs have
  pairwise different uuids, and the primary keys of the whole table stay distinct.
\<close>

theorem trigger_image_build_twice:
  assumes "filter (\<lambda>r. recipe_name r = name) (recipes db) = [recipe]"
    and "no_db_fault e1 (length (architectures recipe))"
    and "fresh_uuids e1 (jobs db) (length (architectures recipe))"
    and "trigger_image_build e1 db name = (r1, db1)"
    and "no_db_fault e2 (length (architectures recipe))"
    and "fresh_uuids e2 (jobs db1) (length (architectures recipe))"
    and "trigger_image_build e2 db1 name = (r2, db2)"
  shows "r1 = Inr (length (architectures recipe))
     \<and> r2 = Inr (length (architectures recipe))
     \<and> take (length (jobs db)) (jobs db2) = jobs db
     \<and> length (jobs db2) = length (jobs db) + 2 * length (architectures recipe)
     \<and> length (jobs_of_trigger (recipe_uuid recipe) db2) =
         length (jobs_of_trigger (recipe_uuid recipe) db) + 2 * length (architectures recipe)
     \<and> distinct (map uuid (drop (length (jobs db)) (jobs db2)))
     \<and> (distinct (map uuid (jobs db)) \<longrightarrow> distinct (map uuid (jobs db2)))"
proof -
  let ?js = "map (new_image_job recipe) (architectures recipe)"
  let ?b1 = "stored_rows e1 0 ?js"
  let ?b2 = "stored_rows e2 0 ?js"
  have unset: "\<forall>j\<in>set ?js. uuid j = None"
    using new_image_job_insertable [of recipe "architectures recipe"] by blast
  have r1: "r1 = Inr (length (architectures recipe))" and db1: "db1 = db\<lparr> jobs := jobs db @ ?b1 \<rparr>"
    using trigger_image_build_succeeds [OF assms(1) assms(2) assms(3)] assms(4) by simp_all
  have look1: "filter (\<lambda>r. recipe_name r = name) (recipes db1) = [recipe]"
    using assms(1) db1 by simp
  have r2: "r2 = Inr (length (architectures recipe))" and db2: "db2 = db1\<lparr> jobs := jobs db1 @ ?b2 \<rparr>"
    using trigger_image_build_succeeds [OF look1 assms(5) assms(6)] assms(7) by simp_all
  have jobs2: "jobs db2 = jobs db @ ?b1 @ ?b2"
    using db1 db2 by simp
  have f1: "fresh_uuids e1 (jobs db) (length ?js)" and f2: "fresh_uuids e2 (jobs db @ ?b1) (length ?js)"
    using assms(3) assms(6) db1 by simp_all
  note d1 = fresh_rows_distinct [OF f1 unset]
  note d2 = fresh_rows_distinct [OF f2 unset]
  have new: "distinct (map uuid (?b1 @ ?b2))"
    using d1(1) d2 by auto
  have all: "distinct (map uuid (jobs db)) \<longrightarrow> distinct (map uuid (jobs db @ ?b1 @ ?b2))"
    using d1 d2 by auto
  have cnt: "length (jobs_of_trigger (recipe_uuid recipe) db2) =
      length (jobs_of_trigger (recipe_uuid recipe) db) + 2 * length (architectures recipe)"
    by (simp add: jobs_of_trigger_def jobs2 filter_trigger_stored_rows)
  show ?thesis
    using r1 r2 new all cnt by (simp add: jobs2)
qed

theorem trigger_image_build_twice_witness:
  "fst (trigger_image_build e0 db0 ''debian-live'') = Inr 2
   \<and> fst (trigger_image_build e0' (snd (trigger_image_build e0 db0 ''debian-live''))
        ''debian-live'') = Inr 2
   \<and> length (jobs_of_trigger 7
        (snd (trigger_image_build e0' (snd (trigger_image_build e0 db0 ''debian-live''))
           ''debian-live''))) = 4"
proof -
  let ?r = "\<lparr> recipe_name = ''debian-live'', recipe_uuid = 7,
              architectures = [''amd64'', ''arm64''] \<rparr>"
  let ?t1 = "trigger_image_build e0 db0 ''debian-live''"
  let ?t2 = "trigger_image_build e0' (snd ?t1) ''debian-live''"
  have f1: "no_db_fault e0 (length (architectures ?r))"
    and f2: "no_db_fault e0' (length (architectures ?r))"
    by (simp_all add: no_db_fault_def e0_def e0'_def)
  have u1: "fresh_uuids e0 (jobs db0) (length (architectures ?r))"
    by (simp add: fresh_uuids_def e0_def db0_def upt_rec)
  have j1: "map uuid (jobs (snd ?t1)) = [Some 100, Some 101]"
    by (simp add: trigger_image_build_def session_scope_def session_commit_def
        e0_def db0_def session_add_def insert_job_def column_defaults_def or_default_def
        new_image_job_def Job_init_def)
  have u2: "fresh_uuids e0' (jobs (snd ?t1)) (length (architectures ?r))"
    unfolding fresh_uuids_def j1 by (simp add: e0_def e0'_def upt_rec All_less_Suc)
  have "jobs_of_trigger 7 db0 = []"
    by (simp add: jobs_of_trigger_def db0_def)
  then show ?thesis
    using trigger_image_build_twice [OF db0_lookup f1 u1 _ f2 u2, of "fst ?t1" "fst ?t2" "snd ?t2"]
    by simp
qed





section \<open>Properties of the dispatcher and of the state machine\<close>

lemma claim_before_total: "claim_before a b \<or> claim_before b a"
  by (auto simp: claim_before_def)

lemma claim_before_trans: "claim_before a b \<Longrightarrow> claim_before b c \<Longrightarrow> claim_before a c"
  by (auto simp: claim_before_def)

lemma set_insert_candidate [simp]: "set (insert_candidate j cs) = insert j (set cs)"
  by (induction cs) auto

lemma sorted_insert_candidate:
  "sorted_wrt claim_before cs \<Longrightarrow> sorted_wrt claim_before (insert_candidate j cs)"
proof (induction cs)
  case Nil
  then show ?case by simp
next
  case (Cons c cs)
  show ?case
  proof (cases "claim_before j c")
    case True
    then have "\<forall>x\<in>set cs. claim_before j x"
      using Cons.prems claim_before_trans by auto
    with True Cons.prems show ?thesis by simp
  next
    case False
    then have "claim_before c j"
      using claim_before_total by blast
    with False Cons show ?thesis by auto
  qed
qed

lemma set_foldr_insert_candidate [simp]: "set (foldr insert_candidate js []) = set js"
  by (induction js) simp_all

lemma sorted_foldr_insert_candidate: "sorted_wrt claim_before (foldr insert_candidate js [])"
  by (induction js) (simp_all add: sorted_insert_candidate)

lemma set_candidates: "set (candidates caps tbl) = {j \<in> set tbl. eligible caps j}"
  by (simp add: candidates_def)

lemma sorted_candidates: "sorted_wrt claim_before (candidates caps tbl)"
  by (simp add: candidates_def sorted_foldr_insert_candidate)

lemma candidates_head:
  assumes "candidates caps tbl = c # cs"
  shows "c \<in> set tbl" and "eligible caps c"
    and "\<forall>j\<in>set tbl. eligible caps j \<longrightarrow> claim_before c j"
proof -
  have c: "c \<in> set (candidates caps tbl)"
    using assms by simp
  then show "c \<in> set tbl" and "eligible caps c"
    by (simp_all add: set_candidates)
  have "claim_before c c"
    using claim_before_total by blast
  moreover have "\<forall>x\<in>set cs. claim_before c x"
    using sorted_candidates [of caps tbl] assms by simp
  ultimately have "\<forall>x\<in>set (candidates caps tbl). claim_before c x"
    using assms by simp
  then show "\<forall>j\<in>set tbl. eligible caps j \<longrightarrow> claim_before c j"
    by (simp add: set_candidates)
qed

lemma claim_before_iff:
  "claim_before c j \<longleftrightarrow>
     priority j \<le> priority c \<and> (priority j = priority c \<longrightarrow> time_created c \<le> time_created j)"
  by (auto simp: claim_before_def)

lemma claim_first_head:
  assumes "c \<in> set tbl" and "claimable c" and "uuid c = Some jid"
  shows "claim_first w now (c # cs) tbl =
     (Some (claimed w now c),
      map (\<lambda>j. if uuid j = Some jid \<and> claimable j then claimed w now j else j) tbl)"
proof -
  have "\<exists>j\<in>set tbl. uuid j = Some jid \<and> claimable j"
    using assms by blast
  then show ?thesis
    using assms(3) by (simp add: try_claim_def)
qed

lemma claim_first_from:
  "fst (claim_first w now cs tbl) = Some c \<Longrightarrow> \<exists>j\<in>set cs. c = claimed w now j"
proof (induction cs)
  case Nil
  then show ?case by simp
next
  case (Cons a cs)
  then show ?case
    by (auto split: option.splits sum.splits)
qed

lemma ClaimNext_empty:
  "candidates caps tbl = [] \<Longrightarrow> ClaimNext caps now tbl = (None, tbl)"
  by (simp add: ClaimNext_def)

lemma ClaimNext_head:
  assumes "primary_key tbl" and "candidates caps tbl = c # cs"
  shows "\<exists>jid. uuid c = Some jid \<and> ClaimNext caps now tbl =
     (Some (claimed (cap_worker caps) now c),
      map (\<lambda>j. if uuid j = Some jid \<and> claimable j then claimed (cap_worker caps) now j else j)
        tbl)"
proof -
  have c: "c \<in> set tbl" "eligible caps c"
    using candidates_head [OF assms(2)] by blast+
  then have "uuid c \<in> set (map uuid tbl)"
    by simp
  then have "uuid c \<noteq> None"
    using assms(1) unfolding primary_key_def by metis
  then obtain jid where jid: "uuid c = Some jid"
    by blast
  have "claimable c"
    using c(2) by (simp add: eligible_def)
  from claim_first_head [OF c(1) this jid] jid show ?thesis
    by (simp add: ClaimNext_def assms(2))
qed

lemma eligible_arch:
  "eligible caps j \<Longrightarrow>
     \<exists>a. architecture j = Some a \<and> (a = ''any'' \<or> a \<in> set (cap_architectures caps))"
  by (auto simp: eligible_def split: option.splits)

lemma ClaimNext_from:
  assumes "fst (ClaimNext caps now tbl) = Some c"
  shows "\<exists>j\<in>set tbl. eligible caps j \<and> c = claimed (cap_worker caps) now j"
proof -
  from assms obtain j where "j \<in> set (candidates caps tbl)" "c = claimed (cap_worker caps) now j"
    unfolding ClaimNext_def by (blast dest: claim_first_from)
  then show ?thesis
    by (auto simp: set_candidates)
qed

lemma status_kept_refl: "status_kept a a"
  by (simp add: status_kept_def)

lemma status_kept_trans: "status_kept a b \<Longrightarrow> status_kept b c \<Longrightarrow> status_kept a c"
  by (auto simp: status_kept_def terminal_def)

lemma list_all2_status_kept_refl: "list_all2 status_kept tbl tbl"
  by (simp add: list_all2_refl status_kept_refl)

lemma list_all2_status_kept_trans:
  "list_all2 status_kept xs ys \<Longrightarrow> list_all2 status_kept ys zs \<Longrightarrow> list_all2 status_kept xs zs"
  using list_all2_trans [of status_kept status_kept status_kept] status_kept_trans by blast

lemma guarded_map_status_kept:
  assumes "\<And>r. g r \<Longrightarrow> status_kept r (f r)"
  shows "list_all2 status_kept tbl (map (\<lambda>r. if g r then f r else r) tbl)"
  using assms by (induction tbl) (simp_all add: status_kept_refl)

lemma update_job_status_kept:
  assumes "\<And>r. pre r \<Longrightarrow> status_kept r (f r)"
    and "update_job jid pre f tbl = Inr tbl'"
  shows "list_all2 status_kept tbl tbl'"
proof -
  from assms(2) have "tbl' = map (\<lambda>r. if uuid r = Some jid \<and> pre r then f r else r) tbl"
    by (auto simp: update_job_def split: option.splits if_splits)
  moreover have "list_all2 status_kept tbl
      (map (\<lambda>r. if uuid r = Some jid \<and> pre r then f r else r) tbl)"
    by (rule guarded_map_status_kept) (simp add: assms(1))
  ultimately show ?thesis
    by simp
qed

lemma try_claim_status_kept:
  assumes "try_claim jid w now tbl = Inr tbl'"
  shows "list_all2 status_kept tbl tbl'"
proof -
  from assms have "tbl' =
      map (\<lambda>j. if uuid j = Some jid \<and> claimable j then claimed w now j else j) tbl"
    by (auto simp: try_claim_def split: if_splits)
  moreover have "status_kept r (claimed w now r)" if "uuid r = Some jid \<and> claimable r" for r
    using that by (auto simp: status_kept_def claimed_def claimable_def terminal_def)
  ultimately show ?thesis
    by (simp add: guarded_map_status_kept)
qed

lemma claim_first_status_kept: "list_all2 status_kept tbl (snd (claim_first w now cs tbl))"
proof (induction cs)
  case Nil
  then show ?case by (simp add: list_all2_status_kept_refl)
next
  case (Cons c cs)
  then show ?case
    by (auto split: option.splits sum.splits dest: try_claim_status_kept)
qed

lemma starvation_sweep_status_kept:
  "list_all2 status_kept tbl (starvation_sweep now threshold tbl)"
  unfolding starvation_sweep_def
  by (rule guarded_map_status_kept) (auto simp: status_kept_def starved_def terminal_def)

lemma apply_operation_status_kept:
  assumes "apply_operation tbl x = Inr tbl'"
  shows "list_all2 status_kept tbl tbl'"
proof (cases x)
  case (OpClaimNext caps now)
  with assms show ?thesis
    by (auto simp: ClaimNext_def claim_first_status_kept)
next
  case (OpStarvationSweep now threshold)
  with assms show ?thesis
    by (auto simp: starvation_sweep_status_kept)
qed (use assms in \<open>auto elim!: update_job_status_kept [rotated]
      simp: status_kept_def terminal_def\<close>)

lemma run_operations_status_kept: "list_all2 status_kept tbl (run_operations tbl xs)"
proof (induction xs arbitrary: tbl)
  case Nil
  then show ?case by (simp add: list_all2_status_kept_refl)
next
  case (Cons x xs)
  show ?case
  proof (cases "apply_operation tbl x")
    case (Inl err)
    then show ?thesis using Cons.IH by simp
  next
    case (Inr tbl')
    from apply_operation_status_kept [OF Inr] Cons.IH [of tbl'] Inr show ?thesis
      by (simp add: list_all2_status_kept_trans)
  qed
qed

section \<open>The claims about the dispatcher and the state machine\<close>

text \<open>
  C6. On a table with its primary key, \<open>ClaimNext\<close> returns nothing exactly when no job is
  eligible for the worker; otherwise it returns (claimed) an eligible job of the highest
  priority, and among the eligible jobs of that priority one that was created
  earliest. In particular, with the jobs A (priority 10, created at 1), B (priority 20,
  created at 2) and C (priority 10, created at 2), all eligible, three calls claim B,
  then A, then C.
\<close>

theorem ClaimNext_priority_order:
  "(primary_key tbl \<longrightarrow>
     (case fst (ClaimNext caps now tbl) of
        None \<Rightarrow> \<not> (\<exists>j\<in>set tbl. eligible caps j)
      | Some c \<Rightarrow>
          (\<exists>j\<in>set tbl.
             eligible caps j \<and> c = claimed (cap_worker caps) now j
             \<and> (\<forall>j'\<in>set tbl. eligible caps j' \<longrightarrow>
                   priority j' \<le> priority j
                   \<and> (priority j' = priority j \<longrightarrow> time_created j \<le> time_created j')))))
   \<and> (let pool = [job_A, job_B, job_C];
           first = ClaimNext caps0 100 pool;
           second = ClaimNext caps0 101 (snd first);
           third = ClaimNext caps0 102 (snd second)
       in list_all (eligible caps0) pool
          \<and> map_option uuid (fst first) = Some (uuid job_B)
          \<and> map_option uuid (fst second) = Some (uuid job_A)
          \<and> map_option uuid (fst third) = Some (uuid job_C))"
proof (intro conjI impI)
  assume pk: "primary_key tbl"
  show "case fst (ClaimNext caps now tbl) of
        None \<Rightarrow> \<not> (\<exists>j\<in>set tbl. eligible caps j)
      | Some c \<Rightarrow>
          (\<exists>j\<in>set tbl.
             eligible caps j \<and> c = claimed (cap_worker caps) now j
             \<and> (\<forall>j'\<in>set tbl. eligible caps j' \<longrightarrow>
                   priority j' \<le> priority j
                   \<and> (priority j' = priority j \<longrightarrow> time_created j \<le> time_created j')))"
  proof (cases "candidates caps tbl")
    case Nil
    then have "{j \<in> set tbl. eligible caps j} = {}"
      using set_candidates [of caps tbl] by simp
    then have "\<not> (\<exists>j\<in>set tbl. eligible caps j)"
      by blast
    then show ?thesis
      by (simp add: ClaimNext_empty [OF Nil])
  next
    case (Cons c cs)
    from ClaimNext_head [OF pk Cons, of now]
    have fst: "fst (ClaimNext caps now tbl) = Some (claimed (cap_worker caps) now c)"
      by auto
    note h = candidates_head [OF Cons]
    have "\<forall>j'\<in>set tbl. eligible caps j' \<longrightarrow>
                   priority j' \<le> priority c
                   \<and> (priority j' = priority c \<longrightarrow> time_created c \<le> time_created j')"
      using h(3) by (simp add: claim_before_iff)
    with h(1) h(2) show ?thesis
      unfolding fst by (simp only: option.case) blast
  qed
next
  show "let pool = [job_A, job_B, job_C];
           first = ClaimNext caps0 100 pool;
           second = ClaimNext caps0 101 (snd first);
           third = ClaimNext caps0 102 (snd second)
       in list_all (eligible caps0) pool
          \<and> map_option uuid (fst first) = Some (uuid job_B)
          \<and> map_option uuid (fst second) = Some (uuid job_A)
          \<and> map_option uuid (fst third) = Some (uuid job_C)"
    by (simp add: Let_def ClaimNext_def candidates_def eligible_def claimable_def
        claim_before_def try_claim_def claimed_def job_A_def job_B_def job_C_def mk_job_def
        caps0_def Job_init_def JobKind_OS_IMAGE_BUILD_def)
qed

theorem ClaimNext_priority_order_witness:
  "primary_key [job_C, job_A, job_B]
   \<and> fst (ClaimNext caps0 100 [job_C, job_A, job_B]) = Some (claimed 50 100 job_B)"
proof -
  have pk: "primary_key [job_C, job_A, job_B]"
    by (simp add: primary_key_def job_A_def job_B_def job_C_def mk_job_def Job_init_def)
  have el: "eligible caps0 job_B"
    by (simp add: eligible_def claimable_def job_B_def mk_job_def caps0_def Job_init_def
        JobKind_OS_IMAGE_BUILD_def)
  from ClaimNext_priority_order [of "[job_C, job_A, job_B]" caps0 100, THEN conjunct1,
      rule_format, OF pk] el
  obtain j where j: "j \<in> set [job_C, job_A, job_B]"
    "fst (ClaimNext caps0 100 [job_C, job_A, job_B]) = Some (claimed (cap_worker caps0) 100 j)"
    "\<forall>j'\<in>set [job_C, job_A, job_B]. eligible caps0 j' \<longrightarrow> priority j' \<le> priority j"
    by (auto split: option.splits)
  have "priority job_B \<le> priority j"
    using j(3) el by simp
  with j(1) have "j = job_B"
    by (auto simp: job_A_def job_B_def job_C_def mk_job_def Job_init_def)
  with j(2) pk show ?thesis
    by (simp add: caps0_def)
qed

text \<open>
  C7. \<open>ClaimNext\<close> never returns a job whose architecture is a concrete value that the
  worker does not advertise: the architecture of the job it returns is the wildcard
  \<^verbatim>\<open>'any'\<close> or one of the worker's. A claimable job whose architecture is \<^verbatim>\<open>'any'\<close> and
  whose kind is among the worker's kinds is eligible whatever the worker's list of
  architectures is, and alone in the table it is the job that is claimed.
\<close>

theorem ClaimNext_architecture:
  "(\<forall>c. fst (ClaimNext caps now tbl) = Some c \<longrightarrow>
      (\<exists>a. architecture c = Some a \<and> (a = ''any'' \<or> a \<in> set (cap_architectures caps))))
   \<and> (claimable j \<and> architecture j = Some ''any'' \<and> kind j = Some k \<and> k \<in> set (cap_kinds caps)
        \<longrightarrow> eligible caps j
            \<and> (uuid j \<noteq> None \<longrightarrow>
                 fst (ClaimNext caps now [j]) = Some (claimed (cap_worker caps) now j)))"
proof (intro conjI allI impI)
  fix c
  assume "fst (ClaimNext caps now tbl) = Some c"
  from ClaimNext_from [OF this] obtain j0 where
    j0: "eligible caps j0" "c = claimed (cap_worker caps) now j0"
    by blast
  from eligible_arch [OF j0(1)] j0(2)
  show "\<exists>a. architecture c = Some a \<and> (a = ''any'' \<or> a \<in> set (cap_architectures caps))"
    by (simp add: claimed_def)
next
  assume a: "claimable j \<and> architecture j = Some ''any'' \<and> kind j = Some k
      \<and> k \<in> set (cap_kinds caps)"
  then show el: "eligible caps j"
    by (simp add: eligible_def)
  assume "uuid j \<noteq> None"
  then obtain jid where jid: "uuid j = Some jid"
    by blast
  have "candidates caps [j] = [j]"
    using el by (simp add: candidates_def)
  moreover have "claim_first (cap_worker caps) now [j] [j] =
      (Some (claimed (cap_worker caps) now j),
       map (\<lambda>r. if uuid r = Some jid \<and> claimable r then claimed (cap_worker caps) now r else r) [j])"
    using a jid by (intro claim_first_head) simp_all
  ultimately show "fst (ClaimNext caps now [j]) = Some (claimed (cap_worker caps) now j)"
    by (simp add: ClaimNext_def)
qed

text \<open>
  A worker for \<^verbatim>\<open>amd64\<close> gets nothing from a table that holds only a job for \<^verbatim>\<open>arm64\<close>; it
  gets the job for any architecture, and so does a worker that lists no architecture.
\<close>

theorem ClaimNext_architecture_witness:
  "fst (ClaimNext caps0 100 [job_arm]) = None
   \<and> fst (ClaimNext caps0 100 [job_arm, job_any]) = Some (claimed 50 100 job_any)
   \<and> fst (ClaimNext (caps0\<lparr> cap_architectures := [] \<rparr>) 100 [job_any])
       = Some (claimed 50 100 job_any)"
proof -
  have ev: "fst (ClaimNext caps0 100 [job_arm, job_any]) = Some (claimed 50 100 job_any)"
    by (simp add: ClaimNext_def candidates_def eligible_def claimable_def
        claim_before_def try_claim_def claimed_def job_arm_def job_any_def mk_job_def
        caps0_def Job_init_def JobKind_OS_IMAGE_BUILD_def)
  have arm: "architecture job_arm = Some ''arm64''" and wk: "cap_worker caps0 = 50"
    by (simp_all add: job_arm_def mk_job_def caps0_def)
  have 1: "fst (ClaimNext caps0 100 [job_arm]) = None"
  proof (cases "fst (ClaimNext caps0 100 [job_arm])")
    case None
    then show ?thesis .
  next
    case (Some c)
    from ClaimNext_from [OF Some] have c: "c = claimed (cap_worker caps0) 100 job_arm"
      by simp
    from ClaimNext_architecture [of caps0 100 "[job_arm]", THEN conjunct1, rule_format, OF Some]
    have False
      by (simp add: c claimed_def arm caps0_def)
    then show ?thesis ..
  qed
  have pre: "claimable job_any \<and> architecture job_any = Some ''any''
      \<and> kind job_any = Some ''os-image-build''
      \<and> ''os-image-build'' \<in> set (cap_kinds (caps0\<lparr> cap_architectures := [] \<rparr>))"
    by (simp add: claimable_def job_any_def mk_job_def caps0_def Job_init_def
        JobKind_OS_IMAGE_BUILD_def)
  have u: "uuid job_any \<noteq> None"
    by (simp add: job_any_def mk_job_def)
  from ClaimNext_architecture [of "caps0\<lparr> cap_architectures := [] \<rparr>" 100 "[]" job_any
      "''os-image-build''", THEN conjunct2, rule_format, OF pre, THEN conjunct2, rule_format, OF u]
  have 3: "fst (ClaimNext (caps0\<lparr> cap_architectures := [] \<rparr>) 100 [job_any])
       = Some (claimed 50 100 job_any)"
    by (simp add: caps0_def)
  from 1 ev 3 show ?thesis by simp
qed

text \<open>
  C8. \<open>Done\<close> and \<open>Terminated\<close> are terminal: whatever sequence of operations is applied
  (claims, starts, progress reports, completions, result confirmations, dependency
  marks, dependency aborts, claim revocations, priority boosts, forced terminations,
  starvation sweeps), a job that is \<open>Done\<close> or \<open>Terminated\<close> keeps its place in the
  table, its id and its status.
\<close>

theorem terminal_states_final:
  assumes "i < length tbl"
    and "status (tbl ! i) = Some JobStatus_DONE \<or> status (tbl ! i) = Some JobStatus_TERMINATED"
  shows "length (run_operations tbl xs) = length tbl
     \<and> uuid (run_operations tbl xs ! i) = uuid (tbl ! i)
     \<and> status (run_operations tbl xs ! i) = status (tbl ! i)"
proof -
  have k: "list_all2 status_kept tbl (run_operations tbl xs)"
    by (rule run_operations_status_kept)
  then have len: "length (run_operations tbl xs) = length tbl"
    by (simp add: list_all2_lengthD)
  from k assms(1) have "status_kept (tbl ! i) (run_operations tbl xs ! i)"
    by (rule list_all2_nthD)
  with assms(2) len show ?thesis
    by (simp add: status_kept_def terminal_def)
qed

theorem terminal_states_final_witness:
  "status (jobs db_done ! 0) = Some JobStatus_DONE
   \<and> status (run_operations (jobs db_done) ops0 ! 0) = Some JobStatus_DONE"
proof -
  have l: "0 < length (jobs db_done)" and s: "status (jobs db_done ! 0) = Some JobStatus_DONE"
    by (simp_all add: db_done_def)
  from terminal_states_final [OF l disjI1 [OF s], of ops0] s show ?thesis
    by simp
qed

section \<open>Properties of the interleaving\<close>

lemma try_claim_Inr:
  assumes "try_claim jid w now tbl = Inr tbl'"
  shows "tbl' = map (\<lambda>j. if uuid j = Some jid \<and> claimable j then claimed w now j else j) tbl"
    and "\<exists>j\<in>set tbl. uuid j = Some jid \<and> claimable j"
  using assms by (auto simp: try_claim_def split: if_splits)

lemma not_claimable_claimed: "\<not> claimable (claimed w now j)"
  by (simp add: claimable_def claimed_def)

lemma try_claim_after:
  assumes "try_claim jid w now tbl = Inr tbl'" and "r' \<in> set tbl'" and "claimable r'"
  shows "r' \<in> set tbl \<and> uuid r' \<noteq> Some jid"
proof -
  from assms(2) obtain r where r: "r \<in> set tbl"
      "r' = (if uuid r = Some jid \<and> claimable r then claimed w now r else r)"
    unfolding try_claim_Inr(1) [OF assms(1)] by auto
  show ?thesis
  proof (cases "uuid r = Some jid \<and> claimable r")
    case True
    with r(2) assms(3) show ?thesis
      by (simp add: not_claimable_claimed)
  next
    case False
    with r assms(3) show ?thesis by auto
  qed
qed

lemma try_claim_rows:
  assumes "try_claim jid w now tbl = Inr tbl'" and "r' \<in> set tbl'"
  shows "\<exists>r\<in>set tbl.
     (r' = r \<and> \<not> (uuid r = Some jid \<and> claimable r))
     \<or> (r' = claimed w now r \<and> uuid r = Some jid \<and> claimable r)"
proof -
  from assms(2) obtain r where r: "r \<in> set tbl"
      "r' = (if uuid r = Some jid \<and> claimable r then claimed w now r else r)"
    unfolding try_claim_Inr(1) [OF assms(1)] by auto
  show ?thesis
  proof (cases "uuid r = Some jid \<and> claimable r")
    case True
    with r(2) have "r' = claimed w now r \<and> uuid r = Some jid \<and> claimable r"
      by simp
    with r(1) show ?thesis by blast
  next
    case False
    with r(2) have "r' = r \<and> \<not> (uuid r = Some jid \<and> claimable r)"
      by simp
    with r(1) show ?thesis by blast
  qed
qed

lemma try_claim_fails:
  "\<forall>r\<in>set tbl. uuid r = Some jid \<longrightarrow> \<not> claimable r \<Longrightarrow>
   try_claim jid w now tbl = Inl ConflictError"
  by (auto simp: try_claim_def)

lemma try_claim_succeeds:
  "r \<in> set tbl \<Longrightarrow> uuid r = Some jid \<Longrightarrow> claimable r \<Longrightarrow>
   \<exists>tbl'. try_claim jid w now tbl = Inr tbl'"
  by (auto simp: try_claim_def)

lemma caller_step_cases:
  assumes "caller_step now c tbl = (c', tbl')"
  shows "(tbl' = tbl \<and> (\<forall>g. c' = Got g \<longrightarrow> c = Got g))
     \<or> (\<exists>caps c0 l jid. c = Trying caps (c0 # l) \<and> uuid c0 = Some jid
          \<and> try_claim jid (cap_worker caps) now tbl = Inr tbl'
          \<and> c' = Got (claimed (cap_worker caps) now c0))"
  using assms
  by (cases "(now, c, tbl)" rule: caller_step.cases) (auto split: option.splits sum.splits)

lemma exclusiveI:
  assumes "\<And>k g. k < length cs \<Longrightarrow> cs ! k = Got g \<Longrightarrow>
        uuid g \<noteq> None \<and> (\<forall>r\<in>set tbl. uuid r = uuid g \<longrightarrow> \<not> claimable r)"
    and "\<And>k m g h. k < length cs \<Longrightarrow> m < length cs \<Longrightarrow> k \<noteq> m \<Longrightarrow> cs ! k = Got g \<Longrightarrow>
        cs ! m = Got h \<Longrightarrow> uuid g \<noteq> uuid h"
  shows "exclusive (tbl, cs)"
  unfolding exclusive_def prod.case
proof (intro conjI allI impI)
  fix i g
  assume "i < length cs" "cs ! i = Got g"
  then show "uuid g \<noteq> None" and "\<forall>r\<in>set tbl. uuid r = uuid g \<longrightarrow> \<not> claimable r"
    using assms(1) by blast+
next
  fix i k g h
  assume "i < length cs" "k < length cs" "i \<noteq> k \<and> cs ! i = Got g \<and> cs ! k = Got h"
  then show "uuid g \<noteq> uuid h"
    using assms(2) by blast
qed

lemma exclusiveD:
  assumes "exclusive (tbl, cs)"
  shows "\<And>k g. k < length cs \<Longrightarrow> cs ! k = Got g \<Longrightarrow>
        uuid g \<noteq> None \<and> (\<forall>r\<in>set tbl. uuid r = uuid g \<longrightarrow> \<not> claimable r)"
    and "\<And>k m g h. k < length cs \<Longrightarrow> m < length cs \<Longrightarrow> k \<noteq> m \<Longrightarrow> cs ! k = Got g \<Longrightarrow>
        cs ! m = Got h \<Longrightarrow> uuid g \<noteq> uuid h"
  using assms unfolding exclusive_def prod.case by blast+

lemma exclusive_step:
  assumes "exclusive (tbl, cs)"
  shows "exclusive (sched_step (tbl, cs) (i, now))"
proof (cases "i < length cs")
  case False
  with assms show ?thesis by simp
next
  case True
  obtain c' tbl' where st: "caller_step now (cs ! i) tbl = (c', tbl')"
    by (cases "caller_step now (cs ! i) tbl")
  then have eq: "sched_step (tbl, cs) (i, now) = (tbl', cs[i := c'])"
    using True by simp
  note a = exclusiveD(1) [OF assms]
  note b = exclusiveD(2) [OF assms]
  from caller_step_cases [OF st] show ?thesis
  proof
    assume same: "tbl' = tbl \<and> (\<forall>g. c' = Got g \<longrightarrow> cs ! i = Got g)"
    have old: "cs ! k = Got g" if "k < length cs" "cs[i := c'] ! k = Got g" for k g
    proof (cases "k = i")
      case True
      with that have "c' = Got g" by simp
      with same True show ?thesis by simp
    next
      case False
      with that show ?thesis by simp
    qed
    show ?thesis
      unfolding eq
    proof (rule exclusiveI)
      fix k g
      assume "k < length (cs[i := c'])" "cs[i := c'] ! k = Got g"
      then have "k < length cs" "cs ! k = Got g"
        using old by simp_all
      from a [OF this] same
      show "uuid g \<noteq> None \<and> (\<forall>r\<in>set tbl'. uuid r = uuid g \<longrightarrow> \<not> claimable r)"
        by simp
    next
      fix k m g h
      assume "k < length (cs[i := c'])" "m < length (cs[i := c'])" "k \<noteq> m"
        "cs[i := c'] ! k = Got g" "cs[i := c'] ! m = Got h"
      then have "k < length cs" "m < length cs" "k \<noteq> m" "cs ! k = Got g" "cs ! m = Got h"
        using old by simp_all
      then show "uuid g \<noteq> uuid h"
        by (rule b)
    qed
  next
    assume "\<exists>caps c0 l jid. cs ! i = Trying caps (c0 # l) \<and> uuid c0 = Some jid
          \<and> try_claim jid (cap_worker caps) now tbl = Inr tbl'
          \<and> c' = Got (claimed (cap_worker caps) now c0)"
    then obtain caps c0 l jid where w: "cs ! i = Trying caps (c0 # l)" "uuid c0 = Some jid"
        "try_claim jid (cap_worker caps) now tbl = Inr tbl'"
        "c' = Got (claimed (cap_worker caps) now c0)"
      by blast
    have ug: "uuid (claimed (cap_worker caps) now c0) = Some jid"
      using w(2) by (simp add: claimed_def)
    from try_claim_Inr(2) [OF w(3)] obtain r0 where r0: "r0 \<in> set tbl" "uuid r0 = Some jid"
        "claimable r0"
      by blast
    have other: "uuid g \<noteq> Some jid" if "k < length cs" "cs ! k = Got g" for k g
    proof
      assume "uuid g = Some jid"
      with a [OF that] r0 show False by simp
    qed
    have got: "(k = i \<and> g = claimed (cap_worker caps) now c0) \<or> (k \<noteq> i \<and> cs ! k = Got g)"
      if "k < length cs" "cs[i := c'] ! k = Got g" for k g
    proof (cases "k = i")
      case True
      with that w(4) show ?thesis by simp
    next
      case False
      with that show ?thesis by simp
    qed
    show ?thesis
      unfolding eq
    proof (rule exclusiveI)
      fix k g
      assume "k < length (cs[i := c'])" and g: "cs[i := c'] ! k = Got g"
      then have k: "k < length cs" by simp
      from got [OF k g]
      show "uuid g \<noteq> None \<and> (\<forall>r\<in>set tbl'. uuid r = uuid g \<longrightarrow> \<not> claimable r)"
      proof
        assume "k = i \<and> g = claimed (cap_worker caps) now c0"
        then have "uuid g = Some jid"
          using ug by simp
        then show ?thesis
          using try_claim_after [OF w(3)] by auto
      next
        assume "k \<noteq> i \<and> cs ! k = Got g"
        then have old: "uuid g \<noteq> None" "\<forall>r\<in>set tbl. uuid r = uuid g \<longrightarrow> \<not> claimable r"
          using a [OF k] by simp_all
        have "\<not> claimable r" if "r \<in> set tbl'" "uuid r = uuid g" for r
        proof
          assume "claimable r"
          from try_claim_after [OF w(3) that(1) this] have "r \<in> set tbl" by simp
          with old(2) that(2) \<open>claimable r\<close> show False by simp
        qed
        with old(1) show ?thesis by simp
      qed
    next
      fix k m g h
      assume "k < length (cs[i := c'])" "m < length (cs[i := c'])" and km: "k \<noteq> m"
        and g: "cs[i := c'] ! k = Got g" and h: "cs[i := c'] ! m = Got h"
      then have k: "k < length cs" and m: "m < length cs" by simp_all
      from got [OF k g] show "uuid g \<noteq> uuid h"
      proof
        assume kg: "k = i \<and> g = claimed (cap_worker caps) now c0"
        with km got [OF m h] have "cs ! m = Got h" by simp
        from other [OF m this] kg ug show ?thesis by simp
      next
        assume kg: "k \<noteq> i \<and> cs ! k = Got g"
        from got [OF m h] show ?thesis
        proof
          assume "m = i \<and> h = claimed (cap_worker caps) now c0"
          with other [OF k] kg ug show ?thesis by simp
        next
          assume "m \<noteq> i \<and> cs ! m = Got h"
          with kg b [OF k m km] show ?thesis by simp
        qed
      qed
    qed
  qed
qed

lemma exclusive_run:
  "exclusive st \<Longrightarrow> exclusive (run_schedule sch st)"
proof (induction sch arbitrary: st)
  case Nil
  then show ?case by (simp add: run_schedule_def)
next
  case (Cons a sch)
  obtain tbl cs where st: "st = (tbl, cs)" by (cases st)
  obtain i now where a: "a = (i, now)" by (cases a)
  have "exclusive (sched_step st a)"
    using Cons.prems exclusive_step unfolding st a by blast
  from Cons.IH [OF this] show ?case
    by (simp add: run_schedule_def)
qed

lemma exclusive_initial: "exclusive (tbl, map Idle capss)"
  by (simp add: exclusive_def)

lemma eligible_claimable: "eligible caps r \<Longrightarrow> claimable r"
  by (simp add: eligible_def)

lemma scheduled_not_claimable: "status r = Some JobStatus_SCHEDULED \<Longrightarrow> \<not> claimable r"
  by (simp add: claimable_def)

lemma caller_ok_update:
  assumes "\<forall>k<length cs. caller_ok jid (capss ! k) (cs ! k)"
    and "caller_ok jid (capss ! i) c'"
  shows "\<forall>k<length (cs[i := c']). caller_ok jid (capss ! k) (cs[i := c'] ! k)"
proof (intro allI impI)
  fix k
  assume "k < length (cs[i := c'])"
  then show "caller_ok jid (capss ! k) (cs[i := c'] ! k)"
    using assms by (cases "k = i") simp_all
qed

lemma in_progress_update:
  assumes "\<forall>k<length cs. in_progress (cs ! k)" and "in_progress c'"
  shows "\<forall>k<length (cs[i := c']). in_progress (cs[i := c'] ! k)"
proof (intro allI impI)
  fix k
  assume "k < length (cs[i := c'])"
  then show "in_progress (cs[i := c'] ! k)"
    using assms by (cases "k = i") simp_all
qed

lemma holder_update:
  assumes "\<exists>k<length cs. (\<exists>g. cs ! k = Got g) \<and> P k" and "\<forall>g. cs ! i \<noteq> Got g"
  shows "\<exists>k<length (cs[i := c']). (\<exists>g. cs[i := c'] ! k = Got g) \<and> P k"
proof -
  from assms(1) obtain k g where k: "k < length cs" "cs ! k = Got g" "P k"
    by blast
  with assms(2) have "k \<noteq> i" by auto
  with k have "k < length (cs[i := c'])" "cs[i := c'] ! k = Got g" "P k"
    by simp_all
  then show ?thesis by blast
qed

lemma single_job_inv_step:
  assumes inv: "single_job_inv jid capss (tbl, cs)"
  shows "single_job_inv jid capss (sched_step (tbl, cs) (i, now))"
proof (cases "i < length cs")
  case False
  with inv show ?thesis by simp
next
  case True
  from inv have L: "length cs = length capss"
    and OK: "\<forall>k<length cs. caller_ok jid (capss ! k) (cs ! k)"
    and E: "\<forall>caps\<in>set capss. \<forall>r\<in>set tbl. eligible caps r \<longrightarrow> uuid r = Some jid"
    and AB: "((\<forall>caps\<in>set capss. \<forall>r\<in>set tbl. uuid r = Some jid \<longrightarrow> eligible caps r)
          \<and> (\<exists>r\<in>set tbl. uuid r = Some jid)
          \<and> (\<forall>k<length cs. in_progress (cs ! k)))
        \<or> (\<exists>k<length cs. (\<exists>g. cs ! k = Got g)
              \<and> (\<forall>r\<in>set tbl. uuid r = Some jid \<longrightarrow>
                    status r = Some JobStatus_SCHEDULED
                    \<and> worker r = Some (cap_worker (capss ! k))))"
    unfolding single_job_inv_def prod.case by blast+
  have capi: "capss ! i \<in> set capss"
    using True L by simp
  have oki: "caller_ok jid (capss ! i) (cs ! i)"
    using OK True by blast
  have same: "single_job_inv jid capss (tbl, cs[i := c'])"
    if ok': "caller_ok jid (capss ! i) c'"
      and prog: "in_progress (cs ! i) \<Longrightarrow> (\<exists>r\<in>set tbl. uuid r = Some jid \<and> eligible (capss ! i) r)
          \<Longrightarrow> in_progress c'"
      and notgot: "\<forall>g. cs ! i \<noteq> Got g" for c'
  proof -
    have "((\<forall>caps\<in>set capss. \<forall>r\<in>set tbl. uuid r = Some jid \<longrightarrow> eligible caps r)
          \<and> (\<exists>r\<in>set tbl. uuid r = Some jid)
          \<and> (\<forall>k<length (cs[i := c']). in_progress (cs[i := c'] ! k)))
        \<or> (\<exists>k<length (cs[i := c']). (\<exists>g. cs[i := c'] ! k = Got g)
              \<and> (\<forall>r\<in>set tbl. uuid r = Some jid \<longrightarrow>
                    status r = Some JobStatus_SCHEDULED
                    \<and> worker r = Some (cap_worker (capss ! k))))"
      using AB
    proof
      assume A: "(\<forall>caps\<in>set capss. \<forall>r\<in>set tbl. uuid r = Some jid \<longrightarrow> eligible caps r)
          \<and> (\<exists>r\<in>set tbl. uuid r = Some jid)
          \<and> (\<forall>k<length cs. in_progress (cs ! k))"
      then have "in_progress (cs ! i)"
        using True by blast
      moreover have "\<exists>r\<in>set tbl. uuid r = Some jid \<and> eligible (capss ! i) r"
        using A capi by blast
      ultimately have "in_progress c'"
        by (rule prog)
      with A have "\<forall>k<length (cs[i := c']). in_progress (cs[i := c'] ! k)"
        by (intro in_progress_update) blast+
      with A show ?thesis by blast
    next
      assume "\<exists>k<length cs. (\<exists>g. cs ! k = Got g)
              \<and> (\<forall>r\<in>set tbl. uuid r = Some jid \<longrightarrow>
                    status r = Some JobStatus_SCHEDULED
                    \<and> worker r = Some (cap_worker (capss ! k)))"
      from holder_update [OF this notgot] show ?thesis
        by blast
    qed
    with L E caller_ok_update [OF OK ok'] show ?thesis
      unfolding single_job_inv_def prod.case by simp
  qed
  show ?thesis
  proof (cases "cs ! i")
    case (Idle caps)
    then have caps: "caps = capss ! i"
      using oki by simp
    have eq: "sched_step (tbl, cs) (i, now) = (tbl, cs[i := Trying caps (candidates caps tbl)])"
      using True Idle by simp
    have "caller_ok jid (capss ! i) (Trying caps (candidates caps tbl))"
      using E capi caps by (auto simp: set_candidates)
    moreover have "in_progress (Trying caps (candidates caps tbl))"
      if "\<exists>r\<in>set tbl. uuid r = Some jid \<and> eligible (capss ! i) r"
    proof -
      from that obtain r where "r \<in> set tbl" "eligible caps r"
        using caps by blast
      then have "r \<in> set (candidates caps tbl)"
        by (simp add: set_candidates)
      then have "candidates caps tbl \<noteq> []"
        by auto
      then show ?thesis by simp
    qed
    moreover have "\<forall>g. cs ! i \<noteq> Got g"
      using Idle by simp
    ultimately show ?thesis
      unfolding eq by (intro same) blast+
  next
    case (Trying caps l)
    then have caps: "caps = capss ! i" and ids: "\<forall>c\<in>set l. uuid c = Some jid"
      using oki by simp_all
    show ?thesis
    proof (cases l)
      case Nil
      have eq: "sched_step (tbl, cs) (i, now) = (tbl, cs[i := Empty])"
        using True Trying Nil by simp
      have "\<not> in_progress (cs ! i)"
        using Trying Nil by simp
      moreover have "\<forall>g. cs ! i \<noteq> Got g"
        using Trying by simp
      ultimately show ?thesis
        unfolding eq by (intro same) simp_all
    next
      case (Cons c0 l')
      then have c0: "uuid c0 = Some jid" and ids': "\<forall>c\<in>set l'. uuid c = Some jid"
        using ids by simp_all
      from AB show ?thesis
      proof
        assume A: "(\<forall>caps\<in>set capss. \<forall>r\<in>set tbl. uuid r = Some jid \<longrightarrow> eligible caps r)
          \<and> (\<exists>r\<in>set tbl. uuid r = Some jid)
          \<and> (\<forall>k<length cs. in_progress (cs ! k))"
        then obtain r0 where r0: "r0 \<in> set tbl" "uuid r0 = Some jid"
          by blast
        then have "claimable r0"
          using A capi eligible_claimable by blast
        from try_claim_succeeds [OF r0 this] obtain tbl' where
          tc: "try_claim jid (cap_worker caps) now tbl = Inr tbl'"
          by blast
        let ?g = "claimed (cap_worker caps) now c0"
        have eq: "sched_step (tbl, cs) (i, now) = (tbl', cs[i := Got ?g])"
          using True Trying Cons c0 tc by simp
        have okg: "caller_ok jid (capss ! i) (Got ?g)"
          using c0 caps by (simp add: claimed_def)
        have E': "\<forall>caps\<in>set capss. \<forall>r\<in>set tbl'. eligible caps r \<longrightarrow> uuid r = Some jid"
        proof (intro ballI impI)
          fix caps' r
          assume "caps' \<in> set capss" "r \<in> set tbl'" "eligible caps' r"
          moreover from this have "r \<in> set tbl"
            using try_claim_after [OF tc] eligible_claimable by blast
          ultimately show "uuid r = Some jid"
            using E by blast
        qed
        have rows: "status r = Some JobStatus_SCHEDULED \<and> worker r = Some (cap_worker (capss ! i))"
          if "r \<in> set tbl'" "uuid r = Some jid" for r
        proof -
          from try_claim_rows [OF tc that(1)] obtain r1 where r1: "r1 \<in> set tbl"
            "(r = r1 \<and> \<not> (uuid r1 = Some jid \<and> claimable r1))
             \<or> (r = claimed (cap_worker caps) now r1 \<and> uuid r1 = Some jid \<and> claimable r1)"
            by blast
          from r1(2) show ?thesis
          proof
            assume "r = r1 \<and> \<not> (uuid r1 = Some jid \<and> claimable r1)"
            with that(2) have "uuid r1 = Some jid" "\<not> claimable r1"
              by simp_all
            with A capi r1(1) eligible_claimable have False
              by blast
            then show ?thesis ..
          next
            assume "r = claimed (cap_worker caps) now r1 \<and> uuid r1 = Some jid \<and> claimable r1"
            then show ?thesis
              using caps by (simp add: claimed_def)
          qed
        qed
        have "i < length (cs[i := Got ?g])" "cs[i := Got ?g] ! i = Got ?g"
          using True by simp_all
        with rows have B': "\<exists>k<length (cs[i := Got ?g]). (\<exists>g. cs[i := Got ?g] ! k = Got g)
              \<and> (\<forall>r\<in>set tbl'. uuid r = Some jid \<longrightarrow>
                    status r = Some JobStatus_SCHEDULED
                    \<and> worker r = Some (cap_worker (capss ! k)))"
          by blast
        show ?thesis
          unfolding eq single_job_inv_def prod.case
          using L E' caller_ok_update [OF OK okg] B' by simp
      next
        assume B: "\<exists>k<length cs. (\<exists>g. cs ! k = Got g)
              \<and> (\<forall>r\<in>set tbl. uuid r = Some jid \<longrightarrow>
                    status r = Some JobStatus_SCHEDULED
                    \<and> worker r = Some (cap_worker (capss ! k)))"
        then have nc: "\<forall>r\<in>set tbl. uuid r = Some jid \<longrightarrow> \<not> claimable r"
          using scheduled_not_claimable by blast
        then have "try_claim jid (cap_worker caps) now tbl = Inl ConflictError"
          by (rule try_claim_fails)
        then have eq: "sched_step (tbl, cs) (i, now) = (tbl, cs[i := Trying caps l'])"
          using True Trying Cons c0 by simp
        have "caller_ok jid (capss ! i) (Trying caps l')"
          using caps ids' by simp
        moreover have "in_progress (Trying caps l')"
          if "\<exists>r\<in>set tbl. uuid r = Some jid \<and> eligible (capss ! i) r"
        proof -
          from that obtain r where "r \<in> set tbl" "uuid r = Some jid" "claimable r"
            using eligible_claimable by blast
          with nc have False by blast
          then show ?thesis ..
        qed
        moreover have "\<forall>g. cs ! i \<noteq> Got g"
          using Trying by simp
        ultimately show ?thesis
          unfolding eq by (intro same) blast+
      qed
    qed
  next
    case (Got g)
    then have "sched_step (tbl, cs) (i, now) = (tbl, cs)"
      using True by (simp add: list_update_same_conv)
    with inv show ?thesis by simp
  next
    case Empty
    then have "sched_step (tbl, cs) (i, now) = (tbl, cs)"
      using True by (simp add: list_update_same_conv)
    with inv show ?thesis by simp
  qed
qed

lemma single_job_inv_initial:
  assumes "\<exists>r\<in>set tbl. uuid r = Some jid"
    and "\<forall>caps\<in>set capss. \<forall>r\<in>set tbl. eligible caps r \<longleftrightarrow> uuid r = Some jid"
  shows "single_job_inv jid capss (tbl, map Idle capss)"
  using assms unfolding single_job_inv_def prod.case by simp

lemma single_job_inv_run:
  "single_job_inv jid capss st \<Longrightarrow> single_job_inv jid capss (run_schedule sch st)"
proof (induction sch arbitrary: st)
  case Nil
  then show ?case by (simp add: run_schedule_def)
next
  case (Cons a sch)
  obtain tbl cs where st: "st = (tbl, cs)" by (cases st)
  obtain i now where a: "a = (i, now)" by (cases a)
  have "single_job_inv jid capss (sched_step st a)"
    using Cons.prems single_job_inv_step unfolding st a by blast
  from Cons.IH [OF this] show ?case
    by (simp add: run_schedule_def)
qed

lemma length_insert_candidate [simp]: "length (insert_candidate j cs) = Suc (length cs)"
  by (induction cs) simp_all

lemma length_candidates: "length (candidates caps tbl) \<le> length tbl"
proof -
  have "length (foldr insert_candidate js []) = length js" for js
    by (induction js) simp_all
  then show ?thesis
    by (simp add: candidates_def)
qed

lemma length_try_claim: "try_claim jid w now tbl = Inr tbl' \<Longrightarrow> length tbl' = length tbl"
  by (auto simp: try_claim_def split: if_splits)

lemma caller_step_progress:
  assumes "caller_step now c tbl = (c', tbl')"
  shows "length tbl' = length tbl"
    and "steps_left (length tbl) c' \<le> steps_left (length tbl) c - 1"
proof -
  show "length tbl' = length tbl"
    using assms
    by (cases "(now, c, tbl)" rule: caller_step.cases)
       (auto split: option.splits sum.splits dest: length_try_claim)
  show "steps_left (length tbl) c' \<le> steps_left (length tbl) c - 1"
  proof (cases c)
    case (Idle caps)
    with assms have "c' = Trying caps (candidates caps tbl)"
      by auto
    with Idle length_candidates [of caps tbl] show ?thesis
      by simp
  next
    case (Trying caps l)
    with assms show ?thesis
      by (cases l) (auto split: option.splits sum.splits)
  next
    case (Got g)
    with assms show ?thesis by auto
  next
    case Empty
    with assms show ?thesis by auto
  qed
qed

lemma sched_step_progress:
  assumes "sched_step (tbl, cs) (i, now) = (tbl', cs')" and "k < length cs"
  shows "length tbl' = length tbl" and "length cs' = length cs"
    and "steps_left (length tbl) (cs' ! k)
         \<le> steps_left (length tbl) (cs ! k) - (if i = k then 1 else 0)"
proof -
  show "length tbl' = length tbl" and "length cs' = length cs"
    using assms(1) caller_step_progress(1)
    by (auto split: if_splits prod.splits)
  show "steps_left (length tbl) (cs' ! k)
         \<le> steps_left (length tbl) (cs ! k) - (if i = k then 1 else 0)"
  proof (cases "i < length cs")
    case False
    with assms show ?thesis by auto
  next
    case True
    obtain c' t where st: "caller_step now (cs ! i) tbl = (c', t)"
      by (cases "caller_step now (cs ! i) tbl")
    with assms(1) True have cs': "cs' = cs[i := c']"
      by simp
    show ?thesis
    proof (cases "i = k")
      case True
      with caller_step_progress(2) [OF st] cs' assms(2) show ?thesis by simp
    next
      case False
      with cs' show ?thesis by simp
    qed
  qed
qed

lemma length_sched_step: "length (snd (sched_step (tbl, cs) a)) = length cs"
  by (cases a) (auto split: prod.splits)

lemma run_schedule_length:
  "run_schedule sch (tbl, cs) = (tbl', cs') \<Longrightarrow> length cs' = length cs"
proof (induction sch arbitrary: tbl cs)
  case Nil
  then show ?case by (simp add: run_schedule_def)
next
  case (Cons a sch)
  obtain tbl1 cs1 where s1: "sched_step (tbl, cs) a = (tbl1, cs1)"
    by (cases "sched_step (tbl, cs) a")
  then have "run_schedule sch (tbl1, cs1) = (tbl', cs')"
    using Cons.prems by (simp add: run_schedule_def)
  from Cons.IH [OF this] length_sched_step [of tbl cs a] s1 show ?case
    by simp
qed

lemma run_schedule_progress:
  assumes "run_schedule sch (tbl, cs) = (tbl', cs')" and "k < length cs"
  shows "length cs' = length cs
     \<and> steps_left (length tbl) (cs' ! k)
         \<le> steps_left (length tbl) (cs ! k) - count_list (map fst sch) k"
  using assms
proof (induction sch arbitrary: tbl cs)
  case Nil
  then show ?case by (simp add: run_schedule_def)
next
  case (Cons a sch)
  obtain i now where a: "a = (i, now)" by (cases a)
  obtain tbl1 cs1 where s1: "sched_step (tbl, cs) (i, now) = (tbl1, cs1)"
    by (cases "sched_step (tbl, cs) (i, now)")
  note p = sched_step_progress [OF s1 Cons.prems(2)]
  have run: "run_schedule sch (tbl1, cs1) = (tbl', cs')"
    using Cons.prems(1) s1 a by (simp add: run_schedule_def)
  have k1: "k < length cs1"
    using p(2) Cons.prems(2) by simp
  from Cons.IH [OF run k1] p a show ?case
    by auto
qed

lemma steps_left_0: "steps_left n c = 0 \<Longrightarrow> returned c"
  by (cases c) simp_all

lemma returned_not_in_progress: "returned c \<Longrightarrow> \<not> in_progress c"
  by (cases c) simp_all

lemma returned_cases: "returned c \<Longrightarrow> (\<exists>g. c = Got g) \<or> c = Empty"
  by (cases c) simp_all

lemma run_schedule_Cons: "run_schedule (a # sch) st = run_schedule sch (sched_step st a)"
  by (simp add: run_schedule_def)

lemma run_schedule_returned:
  "returned c \<Longrightarrow> run_schedule (replicate n (0, now)) (tbl, [c]) = (tbl, [c])"
  by (induction n) (auto simp: run_schedule_def elim: returned.elims)

lemma run_schedule_Trying:
  "run_schedule (replicate (Suc (length cs)) (0, now)) (tbl, [Trying caps cs]) =
     (case claim_first (cap_worker caps) now cs tbl of
        (None, tbl') \<Rightarrow> (tbl', [Empty])
      | (Some j, tbl') \<Rightarrow> (tbl', [Got j]))"
proof (induction cs)
  case Nil
  then show ?case by (simp add: run_schedule_def)
next
  case (Cons c cs)
  show ?case
  proof (cases "uuid c")
    case None
    then show ?thesis
      using Cons.IH by (simp add: run_schedule_Cons)
  next
    case (Some jid)
    show ?thesis
    proof (cases "try_claim jid (cap_worker caps) now tbl")
      case (Inl err)
      then show ?thesis
        using Cons.IH Some by (simp add: run_schedule_Cons)
    next
      case (Inr tbl')
      then show ?thesis
        using Some run_schedule_returned [of "Got (claimed (cap_worker caps) now c)"
            "Suc (length cs)" now tbl']
        by (simp add: run_schedule_Cons)
    qed
  qed
qed

text \<open>
  A caller that runs alone does what \<open>ClaimNext\<close> does: after its query and one step per
  candidate it has returned what \<open>ClaimNext\<close> returns, and the store is the one that
  \<open>ClaimNext\<close> leaves.
\<close>

lemma run_schedule_alone:
  "run_schedule (replicate (length (candidates caps tbl) + 2) (0, now)) (tbl, [Idle caps]) =
     (case ClaimNext caps now tbl of
        (None, tbl') \<Rightarrow> (tbl', [Empty])
      | (Some j, tbl') \<Rightarrow> (tbl', [Got j]))"
  using run_schedule_Trying [of "candidates caps tbl" now tbl caps]
  by (simp add: run_schedule_Cons ClaimNext_def)

section \<open>The claim about concurrent callers\<close>

text \<open>
  C1. Any number of callers of \<open>ClaimNext\<close> run interleaved on one store, all idle at the
  start, under any schedule. At every instant no two callers hold jobs of the same id.
  A caller that is scheduled often enough (two more steps than the store has rows) has
  returned. When the store holds a job \<open>jid\<close> that is the one job eligible for every
  caller, and all callers have returned, then exactly one caller has received that job,
  with status \<open>Scheduled\<close> and itself as worker, the store names the same worker, and
  every other caller has received Empty. The statement holds for one caller or more,
  so for any \<open>N \<ge> 2\<close>.
\<close>

theorem exclusive_claim:
  assumes "run_schedule sch (tbl, map Idle capss) = (tbl', cs)"
  shows "(\<forall>i<length cs. \<forall>k<length cs. \<forall>g h.
            i \<noteq> k \<and> cs ! i = Got g \<and> cs ! k = Got h \<longrightarrow> uuid g \<noteq> uuid h)
     \<and> ((\<forall>i<length capss. length tbl + 2 \<le> count_list (map fst sch) i) \<longrightarrow>
          (\<forall>c\<in>set cs. returned c))
     \<and> (capss \<noteq> [] \<and> (\<exists>r\<in>set tbl. uuid r = Some jid)
          \<and> (\<forall>caps\<in>set capss. \<forall>r\<in>set tbl. eligible caps r \<longleftrightarrow> uuid r = Some jid)
          \<and> (\<forall>c\<in>set cs. returned c) \<longrightarrow>
         (\<exists>i<length cs.
            (\<exists>g. cs ! i = Got g \<and> uuid g = Some jid \<and> status g = Some JobStatus_SCHEDULED
                 \<and> worker g = Some (cap_worker (capss ! i)))
            \<and> (\<forall>r\<in>set tbl'. uuid r = Some jid \<longrightarrow>
                  status r = Some JobStatus_SCHEDULED
                  \<and> worker r = Some (cap_worker (capss ! i)))
            \<and> (\<forall>k<length cs. k \<noteq> i \<longrightarrow> cs ! k = Empty)))"
proof (intro conjI)
  have ex: "exclusive (tbl', cs)"
    using exclusive_run [OF exclusive_initial, of sch tbl capss] assms by simp
  show safe: "\<forall>i<length cs. \<forall>k<length cs. \<forall>g h.
            i \<noteq> k \<and> cs ! i = Got g \<and> cs ! k = Got h \<longrightarrow> uuid g \<noteq> uuid h"
    using exclusiveD(2) [OF ex] by blast
  show "(\<forall>i<length capss. length tbl + 2 \<le> count_list (map fst sch) i) \<longrightarrow>
          (\<forall>c\<in>set cs. returned c)"
  proof (intro impI ballI)
    fix c
    assume enough: "\<forall>i<length capss. length tbl + 2 \<le> count_list (map fst sch) i"
      and "c \<in> set cs"
    then obtain k where k: "k < length cs" "c = cs ! k"
      by (metis in_set_conv_nth)
    have len: "length cs = length capss"
      using run_schedule_length [OF assms] by simp
    then have kk: "k < length (map Idle capss)"
      using k by simp
    from run_schedule_progress [OF assms kk] enough k len
    have "steps_left (length tbl) (cs ! k) = 0"
      by simp
    then show "returned c"
      using k steps_left_0 by blast
  qed
  show "capss \<noteq> [] \<and> (\<exists>r\<in>set tbl. uuid r = Some jid)
          \<and> (\<forall>caps\<in>set capss. \<forall>r\<in>set tbl. eligible caps r \<longleftrightarrow> uuid r = Some jid)
          \<and> (\<forall>c\<in>set cs. returned c) \<longrightarrow>
         (\<exists>i<length cs.
            (\<exists>g. cs ! i = Got g \<and> uuid g = Some jid \<and> status g = Some JobStatus_SCHEDULED
                 \<and> worker g = Some (cap_worker (capss ! i)))
            \<and> (\<forall>r\<in>set tbl'. uuid r = Some jid \<longrightarrow>
                  status r = Some JobStatus_SCHEDULED
                  \<and> worker r = Some (cap_worker (capss ! i)))
            \<and> (\<forall>k<length cs. k \<noteq> i \<longrightarrow> cs ! k = Empty))"
  proof (intro impI, elim conjE)
    assume ne: "capss \<noteq> []" and job: "\<exists>r\<in>set tbl. uuid r = Some jid"
      and only: "\<forall>caps\<in>set capss. \<forall>r\<in>set tbl. eligible caps r \<longleftrightarrow> uuid r = Some jid"
      and ret: "\<forall>c\<in>set cs. returned c"
    have inv: "single_job_inv jid capss (tbl', cs)"
      using single_job_inv_run [OF single_job_inv_initial [OF job only], of sch] assms by simp
    then have L: "length cs = length capss"
      and OK: "\<forall>k<length cs. caller_ok jid (capss ! k) (cs ! k)"
      and AB: "((\<forall>caps\<in>set capss. \<forall>r\<in>set tbl'. uuid r = Some jid \<longrightarrow> eligible caps r)
          \<and> (\<exists>r\<in>set tbl'. uuid r = Some jid)
          \<and> (\<forall>k<length cs. in_progress (cs ! k)))
        \<or> (\<exists>k<length cs. (\<exists>g. cs ! k = Got g)
              \<and> (\<forall>r\<in>set tbl'. uuid r = Some jid \<longrightarrow>
                    status r = Some JobStatus_SCHEDULED
                    \<and> worker r = Some (cap_worker (capss ! k))))"
      unfolding single_job_inv_def prod.case by blast+
    have "0 < length cs"
      using ne L by simp
    then have "\<not> in_progress (cs ! 0)"
      using ret returned_not_in_progress by simp
    with AB \<open>0 < length cs\<close> obtain i g where i: "i < length cs" "cs ! i = Got g"
      and rows: "\<forall>r\<in>set tbl'. uuid r = Some jid \<longrightarrow>
                    status r = Some JobStatus_SCHEDULED
                    \<and> worker r = Some (cap_worker (capss ! i))"
      by blast
    have g: "uuid g = Some jid \<and> status g = Some JobStatus_SCHEDULED
        \<and> worker g = Some (cap_worker (capss ! i))"
      using OK i by (metis caller_ok.simps(3))
    have rest: "cs ! k = Empty" if "k < length cs" "k \<noteq> i" for k
    proof -
      have "returned (cs ! k)"
        using ret that(1) by simp
      from returned_cases [OF this] show ?thesis
      proof
        assume "\<exists>h. cs ! k = Got h"
        then obtain h where h: "cs ! k = Got h" by blast
        then have "uuid h = Some jid"
          using OK that(1) by (metis caller_ok.simps(3))
        with safe i that h g have False
          by metis
        then show ?thesis ..
      qed
    qed
    from i g rows rest show "\<exists>i<length cs.
            (\<exists>g. cs ! i = Got g \<and> uuid g = Some jid \<and> status g = Some JobStatus_SCHEDULED
                 \<and> worker g = Some (cap_worker (capss ! i)))
            \<and> (\<forall>r\<in>set tbl'. uuid r = Some jid \<longrightarrow>
                  status r = Some JobStatus_SCHEDULED
                  \<and> worker r = Some (cap_worker (capss ! i)))
            \<and> (\<forall>k<length cs. k \<noteq> i \<longrightarrow> cs ! k = Empty)"
      by blast
  qed
qed

text \<open>
  Three callers compete for the job A (a job for another architecture is in the store
  as well): the second caller wins, the first loses its conditional update and gets
  Empty, the third finds no candidate.
\<close>

theorem exclusive_claim_witness:
  "snd (run_schedule sch0 ([job_A, job_arm], map Idle capss0))
     = [Empty, Got (claimed 51 12 job_A), Empty]
   \<and> (\<exists>i<3. \<exists>g. snd (run_schedule sch0 ([job_A, job_arm], map Idle capss0)) ! i = Got g
         \<and> worker g = Some (cap_worker (capss0 ! i)))"
proof -
  let ?R = "run_schedule sch0 ([job_A, job_arm], map Idle capss0)"
  have ev: "snd ?R = [Empty, Got (claimed 51 12 job_A), Empty]"
    by (simp add: run_schedule_def sch0_def capss0_def caps0_def candidates_def eligible_def
        claimable_def claim_before_def try_claim_def claimed_def job_A_def job_arm_def
        mk_job_def Job_init_def JobKind_OS_IMAGE_BUILD_def)
  have run: "?R = (fst ?R, snd ?R)"
    by simp
  have p: "capss0 \<noteq> [] \<and> (\<exists>r\<in>set [job_A, job_arm]. uuid r = Some 1)
      \<and> (\<forall>caps\<in>set capss0. \<forall>r\<in>set [job_A, job_arm]. eligible caps r \<longleftrightarrow> uuid r = Some 1)
      \<and> (\<forall>c\<in>set (snd ?R). returned c)"
    unfolding ev
    by (simp add: capss0_def caps0_def eligible_def claimable_def job_A_def job_arm_def
        mk_job_def Job_init_def JobKind_OS_IMAGE_BUILD_def)
  from exclusive_claim [OF run, of 1, THEN conjunct2, THEN conjunct2, rule_format, OF p]
  obtain i g where i: "i < length (snd ?R)" and g: "snd ?R ! i = Got g"
    "worker g = Some (cap_worker (capss0 ! i))"
    by blast
  from i have "i < 3"
    by (simp add: ev)
  with g have "\<exists>i<3. \<exists>g. snd ?R ! i = Got g \<and> worker g = Some (cap_worker (capss0 ! i))"
    by blast
  with ev show ?thesis by (rule conjI)
qed

end
